theory Spec2Isabelle
  imports Complex_Main
begin

section \<open>Floating-point values\<close>

text \<open>
  The pipeline computes on pandas columns of 64-bit floats. A float is modelled as an exact
  real number, or one of the three special values that division produces: plus infinity,
  minus infinity and not-a-number (the value pandas treats as absent). Rounding, overflow
  and the sign of zero are outside the model: a zero divisor counts as positive zero.
\<close>

datatype fl = Fin real | PInf | NInf | NaN

fun is_nan :: "fl \<Rightarrow> bool" where
  "is_nan NaN = True"
| "is_nan _ = False"

fun of_opt :: "real option \<Rightarrow> fl" where
  "of_opt None = NaN"
| "of_opt (Some x) = Fin x"

fun fl_neg :: "fl \<Rightarrow> fl" where
  "fl_neg (Fin a) = Fin (- a)"
| "fl_neg PInf = NInf"
| "fl_neg NInf = PInf"
| "fl_neg NaN = NaN"

fun fl_add :: "fl \<Rightarrow> fl \<Rightarrow> fl" where
  "fl_add NaN _ = NaN"
| "fl_add _ NaN = NaN"
| "fl_add (Fin a) (Fin b) = Fin (a + b)"
| "fl_add PInf NInf = NaN"
| "fl_add NInf PInf = NaN"
| "fl_add PInf _ = PInf"
| "fl_add _ PInf = PInf"
| "fl_add NInf _ = NInf"
| "fl_add _ NInf = NInf"

definition fl_sub :: "fl \<Rightarrow> fl \<Rightarrow> fl" where
  "fl_sub a b = fl_add a (fl_neg b)"

fun fl_mul :: "fl \<Rightarrow> fl \<Rightarrow> fl" where
  "fl_mul NaN _ = NaN"
| "fl_mul _ NaN = NaN"
| "fl_mul (Fin a) (Fin b) = Fin (a * b)"
| "fl_mul (Fin a) PInf = (if a = 0 then NaN else if 0 < a then PInf else NInf)"
| "fl_mul (Fin a) NInf = (if a = 0 then NaN else if 0 < a then NInf else PInf)"
| "fl_mul PInf (Fin b) = (if b = 0 then NaN else if 0 < b then PInf else NInf)"
| "fl_mul NInf (Fin b) = (if b = 0 then NaN else if 0 < b then NInf else PInf)"
| "fl_mul PInf PInf = PInf"
| "fl_mul PInf NInf = NInf"
| "fl_mul NInf PInf = NInf"
| "fl_mul NInf NInf = PInf"

fun fl_div :: "fl \<Rightarrow> fl \<Rightarrow> fl" where
  "fl_div NaN _ = NaN"
| "fl_div _ NaN = NaN"
| "fl_div (Fin a) (Fin b) =
     (if b \<noteq> 0 then Fin (a / b)
      else if a = 0 then NaN
      else if 0 < a then PInf else NInf)"
| "fl_div (Fin a) PInf = Fin 0"
| "fl_div (Fin a) NInf = Fin 0"
| "fl_div PInf (Fin b) = (if 0 \<le> b then PInf else NInf)"
| "fl_div NInf (Fin b) = (if 0 \<le> b then NInf else PInf)"
| "fl_div PInf PInf = NaN"
| "fl_div PInf NInf = NaN"
| "fl_div NInf PInf = NaN"
| "fl_div NInf NInf = NaN"

text \<open>Comparison \<open>a <= b\<close>: false as soon as one side is not-a-number.\<close>

fun fl_le :: "fl \<Rightarrow> fl \<Rightarrow> bool" where
  "fl_le NaN _ = False"
| "fl_le _ NaN = False"
| "fl_le (Fin a) (Fin b) = (a \<le> b)"
| "fl_le NInf _ = True"
| "fl_le _ PInf = True"
| "fl_le PInf _ = False"
| "fl_le _ NInf = False"

text \<open>\<open>np.log\<close>: minus infinity at zero, not-a-number below zero.\<close>

fun np_log :: "fl \<Rightarrow> fl" where
  "np_log (Fin x) = (if 0 < x then Fin (ln x) else if x = 0 then NInf else NaN)"
| "np_log PInf = PInf"
| "np_log NInf = NaN"
| "np_log NaN = NaN"

section \<open>The pandas operations the scripts call\<close>

text \<open>
  A column whose entries are finite or absent is a list of \<open>real option\<close>, \<open>None\<close>
  being the absent value; a column that a division has produced is a list of \<open>fl\<close>.
\<close>

type_synonym series = "real option list"

text \<open>\<open>Series.shift(1)\<close>: every value moves one place down, the first place is absent.\<close>

fun shift :: "series \<Rightarrow> series" where
  "shift [] = []"
| "shift (x # xs) = None # butlast (x # xs)"

fun opt_sub :: "real option \<Rightarrow> real option \<Rightarrow> real option" where
  "opt_sub (Some a) (Some b) = Some (a - b)"
| "opt_sub _ _ = None"

fun opt_add :: "real option \<Rightarrow> real option \<Rightarrow> real option" where
  "opt_add (Some a) (Some b) = Some (a + b)"
| "opt_add _ _ = None"

text \<open>\<open>Series.diff()\<close>: the value minus the one before it.\<close>

definition diff :: "series \<Rightarrow> series" where
  "diff xs = map2 opt_sub xs (shift xs)"

text \<open>
  \<open>Series.where(cond, other)\<close> keeps an entry where the condition holds and puts
  \<open>other\<close> elsewhere; a comparison with an absent value is false, so an absent entry is
  replaced too.
\<close>

definition series_where :: "(real \<Rightarrow> bool) \<Rightarrow> real \<Rightarrow> series \<Rightarrow> series" where
  "series_where cond other xs =
     map (\<lambda>x. case x of None \<Rightarrow> Some other
                | Some v \<Rightarrow> if cond v then Some v else Some other) xs"

text \<open>All the values of a window, if none is absent.\<close>

fun sequence :: "'a option list \<Rightarrow> 'a list option" where
  "sequence [] = Some []"
| "sequence (None # xs) = None"
| "sequence (Some x # xs) = map_option ((#) x) (sequence xs)"

text \<open>
  \<open>Series.rolling(k)\<close> with the default \<open>min_periods = k\<close>: the aggregate of the last
  \<open>k\<close> entries, absent while fewer than \<open>k\<close> entries exist or when one of them is absent.
\<close>

definition rolling :: "nat \<Rightarrow> (real list \<Rightarrow> real) \<Rightarrow> series \<Rightarrow> series" where
  "rolling k f xs =
     map (\<lambda>i. if i + 1 < k then None
              else map_option f (sequence (take k (drop (i + 1 - k) xs))))
         [0..<length xs]"

definition mean :: "real list \<Rightarrow> real" where
  "mean ys = sum_list ys / real (length ys)"

text \<open>\<open>std()\<close> of a window: the sample standard deviation (one degree of freedom less).\<close>

definition std :: "real list \<Rightarrow> real" where
  "std ys = sqrt (sum_list (map (\<lambda>y. (y - mean ys)\<^sup>2) ys) / (real (length ys) - 1))"

text \<open>
  \<open>Series.ewm(span=k, adjust=False).mean()\<close>. The span gives the centre of mass
  \<open>(k - 1) / 2\<close> and from it the smoothing factor. The loop keeps the running average
  \<open>weighted\<close> and the weight \<open>old_wt\<close> of the past, which decays over absent entries
  and is reset to one at each observation; the average starts at the first observation.
\<close>

definition span_alpha :: "real \<Rightarrow> real" where
  "span_alpha k = 1 / (1 + (k - 1) / 2)"

fun ewm_loop :: "real \<Rightarrow> real option \<Rightarrow> real \<Rightarrow> series \<Rightarrow> series" where
  "ewm_loop \<alpha> weighted old_wt [] = []"
| "ewm_loop \<alpha> weighted old_wt (cur # rest) =
     (case weighted of
        Some w \<Rightarrow>
          (let old_wt' = old_wt * (1 - \<alpha>) in
           case cur of
             Some c \<Rightarrow>
               (let w' = (if w \<noteq> c then (old_wt' * w + \<alpha> * c) / (old_wt' + \<alpha>) else w)
                in Some w' # ewm_loop \<alpha> (Some w') 1 rest)
           | None \<Rightarrow> Some w # ewm_loop \<alpha> (Some w) old_wt' rest)
      | None \<Rightarrow> cur # ewm_loop \<alpha> cur old_wt rest)"

fun ewm_mean :: "real \<Rightarrow> series \<Rightarrow> series" where
  "ewm_mean k [] = []"
| "ewm_mean k (x # xs) = x # ewm_loop (span_alpha k) x 1 xs"

text \<open>
  \<open>Series.pct_change()\<close> is \<open>data / data.shift(1) - 1\<close>. Which \<open>data\<close> depends on the
  pandas release, which the repository does not pin: up to pandas 2 absent entries are
  first filled forward (\<open>Pad\<close>), from pandas 3 on the column is taken as it is
  (\<open>NoFill\<close>). The release is a parameter of the model.
\<close>

datatype fill_method = Pad | NoFill

fun ffill_from :: "real option \<Rightarrow> series \<Rightarrow> series" where
  "ffill_from prev [] = []"
| "ffill_from prev (None # xs) = prev # ffill_from prev xs"
| "ffill_from prev (Some v # xs) = Some v # ffill_from (Some v) xs"

definition ffill :: "series \<Rightarrow> series" where
  "ffill xs = ffill_from None xs"

definition pct_change :: "fill_method \<Rightarrow> series \<Rightarrow> fl list" where
  "pct_change fm xs =
     (let data = (case fm of Pad \<Rightarrow> ffill xs | NoFill \<Rightarrow> xs)
      in map2 (\<lambda>x p. fl_sub (fl_div (of_opt x) (of_opt p)) (Fin 1)) data (shift data))"

section \<open>Technical indicators\<close>

text \<open>
  \<open>calculate_rsi\<close>: the average gain and the average loss over \<open>period\<close> days, their
  ratio \<open>rs\<close>, and \<open>100 - 100 / (1 + rs)\<close>, all in float arithmetic.
\<close>

definition rsi_gain :: "series \<Rightarrow> nat \<Rightarrow> series" where
  "rsi_gain series period = rolling period mean (series_where (\<lambda>d. d > 0) 0 (diff series))"

definition rsi_loss :: "series \<Rightarrow> nat \<Rightarrow> series" where
  "rsi_loss series period =
     rolling period mean (map (map_option uminus) (series_where (\<lambda>d. d < 0) 0 (diff series)))"

definition calculate_rsi :: "series \<Rightarrow> nat \<Rightarrow> fl list" where
  "calculate_rsi series period =
     (let gain = rsi_gain series period;
          loss = rsi_loss series period;
          rs = map2 (\<lambda>g l. fl_div (of_opt g) (of_opt l)) gain loss
      in map (\<lambda>r. fl_sub (Fin 100) (fl_div (Fin 100) (fl_add (Fin 1) r))) rs)"

definition calculate_macd :: "series \<Rightarrow> real \<Rightarrow> real \<Rightarrow> real \<Rightarrow> series \<times> series \<times> series" where
  "calculate_macd series fast slow signal =
     (let ema_fast = ewm_mean fast series;
          ema_slow = ewm_mean slow series;
          macd = map2 opt_sub ema_fast ema_slow;
          macd_signal = ewm_mean signal macd;
          macd_hist = map2 opt_sub macd macd_signal
      in (macd, macd_signal, macd_hist))"

definition calculate_bollinger ::
  "series \<Rightarrow> nat \<Rightarrow> real \<Rightarrow> series \<times> series \<times> series \<times> fl list" where
  "calculate_bollinger series window num_std =
     (let mid = rolling window mean series;
          sd = rolling window std series;
          upper = map2 opt_add mid (map (map_option (\<lambda>s. num_std * s)) sd);
          lower = map2 opt_sub mid (map (map_option (\<lambda>s. num_std * s)) sd);
          width = map2 (\<lambda>d m. fl_div (of_opt d) (of_opt m)) (map2 opt_sub upper lower) mid
      in (upper, mid, lower, width))"

section \<open>The data model\<close>

text \<open>
  A row of \<open>price_data\<close>. The collection script stores a row only when its date and its
  four prices are present, so these are plain numbers; the volume may be null.
\<close>

type_synonym date = nat

record price_point =
  metal_id :: int
  date :: date
  open_price :: real
  high :: real
  low :: real
  close :: real
  volume :: "real option"

text \<open>The twenty columns that \<open>build_features\<close> adds to the frame.\<close>

record indicators =
  daily_return :: fl
  log_return :: fl
  sma_5 :: fl
  sma_10 :: fl
  sma_20 :: fl
  sma_50 :: fl
  ema_12 :: fl
  ema_26 :: fl
  bollinger_upper :: fl
  bollinger_middle :: fl
  bollinger_lower :: fl
  bollinger_width :: fl
  rsi_14 :: fl
  macd :: fl
  macd_signal :: fl
  macd_histogram :: fl
  high_low_range :: fl
  high_low_ratio :: fl
  volume_change :: fl
  volume_sma_20 :: fl

text \<open>A row of the enriched frame: the price columns and the derived columns.\<close>

record frame_row =
  point :: price_point
  ind :: indicators

text \<open>The columns of a \<open>risk_events\<close> row besides its key.\<close>

record risk_event =
  is_risk_event :: bool
  price_change_pct :: fl
  previous_close :: "real option"
  current_close :: real

text \<open>Both derived tables are keyed by \<open>(metal_id, date)\<close>.\<close>

type_synonym key = "int \<times> date"

definition row_key :: "frame_row \<Rightarrow> key" where
  "row_key r = (metal_id (point r), date (point r))"

section \<open>Feature engineering\<close>

text \<open>The close column of a frame, as a series without absent entries.\<close>

definition closes :: "price_point list \<Rightarrow> series" where
  "closes df = map (\<lambda>p. Some (close p)) df"

text \<open>
  \<open>build_features\<close> computes each derived column over the whole series and returns the
  frame with the price columns and the twenty derived columns, one row for each price row.
\<close>

definition build_features :: "fill_method \<Rightarrow> price_point list \<Rightarrow> frame_row list" where
  "build_features fm df =
     (let c = closes df;
          v = map volume df;
          c_daily_return = pct_change fm c;
          c_log_return = map2 (\<lambda>x p. np_log (fl_div (of_opt x) (of_opt p))) c (shift c);
          c_sma_5 = rolling 5 mean c;
          c_sma_10 = rolling 10 mean c;
          c_sma_20 = rolling 20 mean c;
          c_sma_50 = rolling 50 mean c;
          c_ema_12 = ewm_mean 12 c;
          c_ema_26 = ewm_mean 26 c;
          (b_upper, b_middle, b_lower, b_width) = calculate_bollinger c 20 2;
          c_rsi_14 = calculate_rsi c 14;
          (c_macd, c_macd_signal, c_macd_histogram) = calculate_macd c 12 26 9;
          c_high_low_range = map (\<lambda>p. Fin (high p - low p)) df;
          c_high_low_ratio = map (\<lambda>p. if low p > 0 then Fin (high p / low p) else NaN) df;
          c_volume_change = pct_change fm v;
          c_volume_sma_20 = rolling 20 mean v
      in map (\<lambda>i. \<lparr>point = df ! i,
                    ind = \<lparr>daily_return = c_daily_return ! i,
                           log_return = c_log_return ! i,
                           sma_5 = of_opt (c_sma_5 ! i),
                           sma_10 = of_opt (c_sma_10 ! i),
                           sma_20 = of_opt (c_sma_20 ! i),
                           sma_50 = of_opt (c_sma_50 ! i),
                           ema_12 = of_opt (c_ema_12 ! i),
                           ema_26 = of_opt (c_ema_26 ! i),
                           bollinger_upper = of_opt (b_upper ! i),
                           bollinger_middle = of_opt (b_middle ! i),
                           bollinger_lower = of_opt (b_lower ! i),
                           bollinger_width = b_width ! i,
                           rsi_14 = c_rsi_14 ! i,
                           macd = of_opt (c_macd ! i),
                           macd_signal = of_opt (c_macd_signal ! i),
                           macd_histogram = of_opt (c_macd_histogram ! i),
                           high_low_range = c_high_low_range ! i,
                           high_low_ratio = c_high_low_ratio ! i,
                           volume_change = c_volume_change ! i,
                           volume_sma_20 = of_opt (c_volume_sma_20 ! i)\<rparr>\<rparr>)
             [0..<length df])"

section \<open>Risk events\<close>

text \<open>
  \<open>build_risk_events\<close> reads the close and the daily return of the frame, adds the
  previous close, the change in percent and the flag, and drops every row where the
  previous close or the daily return is absent.
\<close>

definition build_risk_events :: "frame_row list \<Rightarrow> real \<Rightarrow> (key \<times> risk_event) list" where
  "build_risk_events df threshold =
     (let prev = shift (closes (map point df));
          kept = filter (\<lambda>i. prev ! i \<noteq> None \<and> \<not> is_nan (daily_return (ind (df ! i))))
                   [0..<length df]
      in map (\<lambda>i. (row_key (df ! i),
                    \<lparr>is_risk_event = fl_le (daily_return (ind (df ! i))) (Fin threshold),
                     price_change_pct = fl_mul (daily_return (ind (df ! i))) (Fin 100),
                     previous_close = prev ! i,
                     current_close = close (point (df ! i))\<rparr>))
             kept)"

section \<open>The store\<close>

text \<open>
  The database the feature script reads and writes: the metals, their prices and the two
  derived tables, each a map from key to row since \<open>(metal_id, date)\<close> is unique.
\<close>

record database =
  metals :: "(int \<times> string) list"
  price_data :: "price_point list"
  technical_features :: "key \<rightharpoonup> indicators"
  risk_events :: "key \<rightharpoonup> risk_event"

text \<open>
  Where the store raises is not decided by the repository, which holds neither the table
  declarations nor a pinned driver: the constraints of the two tables, whether the driver
  runs a statement that is given an empty list of rows, and whether reading the prices of
  a metal raises (in the query or in the conversion of the dates), are parameters.
\<close>

record store_rules =
  feat_accepts :: "key \<Rightarrow> indicators \<Rightarrow> bool"
  risk_accepts :: "key \<Rightarrow> risk_event \<Rightarrow> bool"
  empty_batch_ok :: bool
  read_fails :: "int \<Rightarrow> bool"

datatype error = PersistenceFailure | LoadFailure

text \<open>
  One \<open>INSERT ... ON CONFLICT (metal_id, date) DO NOTHING\<close>: a row the table's
  constraints refuse raises; a row whose key exists is left out without an error; any
  other row is added.
\<close>

definition insert_row :: "('k \<Rightarrow> 'v \<Rightarrow> bool) \<Rightarrow> ('k \<rightharpoonup> 'v) \<Rightarrow> 'k \<times> 'v \<Rightarrow> error + ('k \<rightharpoonup> 'v)" where
  "insert_row accepts tbl kv =
     (case kv of (k, v) \<Rightarrow>
        if \<not> accepts k v then Inl PersistenceFailure
        else (case tbl k of Some old \<Rightarrow> Inr tbl | None \<Rightarrow> Inr (tbl(k \<mapsto> v))))"

fun insert_rows :: "('k \<Rightarrow> 'v \<Rightarrow> bool) \<Rightarrow> ('k \<rightharpoonup> 'v) \<Rightarrow> ('k \<times> 'v) list \<Rightarrow> error + ('k \<rightharpoonup> 'v)" where
  "insert_rows accepts tbl [] = Inr tbl"
| "insert_rows accepts tbl (kv # rest) =
     (case insert_row accepts tbl kv of
        Inl e \<Rightarrow> Inl e
      | Inr tbl' \<Rightarrow> insert_rows accepts tbl' rest)"

text \<open>
  \<open>conn.execute(sql, rows)\<close>: the statement once for each row of the list, stopping at
  the first row that raises. For an empty list the driver either does nothing or raises
  for the unbound parameters of the statement, as the parameter \<open>empty_ok\<close> says.
\<close>

definition execute :: "bool \<Rightarrow> ('k \<Rightarrow> 'v \<Rightarrow> bool) \<Rightarrow> ('k \<rightharpoonup> 'v) \<Rightarrow> ('k \<times> 'v) list \<Rightarrow> error + ('k \<rightharpoonup> 'v)" where
  "execute empty_ok accepts tbl rows =
     (if rows = [] \<and> \<not> empty_ok then Inl PersistenceFailure
      else insert_rows accepts tbl rows)"

text \<open>
  \<open>with engine.begin() as conn\<close>: the body runs in a transaction of its own, committed
  when the body returns and rolled back, the table as it was, when the body raises; the
  exception then goes on to the caller.
\<close>

definition begin_transaction :: "('t \<Rightarrow> error + 't) \<Rightarrow> 't \<Rightarrow> 't \<times> error option" where
  "begin_transaction body tbl =
     (case body tbl of Inl e \<Rightarrow> (tbl, Some e) | Inr tbl' \<Rightarrow> (tbl', None))"

section \<open>The writers\<close>

text \<open>\<open>dropna()\<close> on the selected columns: the key columns are never null.\<close>

definition no_absent :: "indicators \<Rightarrow> bool" where
  "no_absent r \<longleftrightarrow>
     \<not> is_nan (daily_return r) \<and> \<not> is_nan (log_return r) \<and>
     \<not> is_nan (sma_5 r) \<and> \<not> is_nan (sma_10 r) \<and>
     \<not> is_nan (sma_20 r) \<and> \<not> is_nan (sma_50 r) \<and>
     \<not> is_nan (ema_12 r) \<and> \<not> is_nan (ema_26 r) \<and>
     \<not> is_nan (bollinger_upper r) \<and> \<not> is_nan (bollinger_middle r) \<and>
     \<not> is_nan (bollinger_lower r) \<and> \<not> is_nan (bollinger_width r) \<and>
     \<not> is_nan (rsi_14 r) \<and>
     \<not> is_nan (macd r) \<and> \<not> is_nan (macd_signal r) \<and> \<not> is_nan (macd_histogram r) \<and>
     \<not> is_nan (high_low_range r) \<and> \<not> is_nan (high_low_ratio r) \<and>
     \<not> is_nan (volume_change r) \<and> \<not> is_nan (volume_sma_20 r)"

definition feature_batch :: "frame_row list \<Rightarrow> (key \<times> indicators) list" where
  "feature_batch df = filter (\<lambda>kv. no_absent (snd kv)) (map (\<lambda>r. (row_key r, ind r)) df)"

text \<open>
  Each writer returns the database after its transaction and either the exception that
  the transaction raised or the length of the batch.
\<close>

definition upsert_technical_features ::
  "store_rules \<Rightarrow> database \<Rightarrow> frame_row list \<Rightarrow> database \<times> (error + nat)" where
  "upsert_technical_features rules db df =
     (let feat = feature_batch df in
      case begin_transaction
             (\<lambda>tbl. execute (empty_batch_ok rules) (feat_accepts rules) tbl feat)
             (technical_features db) of
        (tbl, Some e) \<Rightarrow> (db\<lparr>technical_features := tbl\<rparr>, Inl e)
      | (tbl, None) \<Rightarrow> (db\<lparr>technical_features := tbl\<rparr>, Inr (length feat)))"

definition default_threshold :: real where
  "default_threshold = - 0.02"

definition upsert_risk_events ::
  "store_rules \<Rightarrow> database \<Rightarrow> frame_row list \<Rightarrow> database \<times> (error + nat)" where
  "upsert_risk_events rules db df =
     (let risk = build_risk_events df default_threshold in
      case begin_transaction
             (\<lambda>tbl. execute (empty_batch_ok rules) (risk_accepts rules) tbl risk)
             (risk_events db) of
        (tbl, Some e) \<Rightarrow> (db\<lparr>risk_events := tbl\<rparr>, Inl e)
      | (tbl, None) \<Rightarrow> (db\<lparr>risk_events := tbl\<rparr>, Inr (length risk)))"

section \<open>The driver\<close>

text \<open>
  \<open>load_price_data\<close>: an exception of the query or of the date conversion goes on to the
  caller; otherwise the result is the prices of one metal in date order, or \<open>None\<close> when
  there are none.
\<close>

definition load_price_data ::
  "store_rules \<Rightarrow> database \<Rightarrow> int \<Rightarrow> error + price_point list option" where
  "load_price_data rules db mid =
     (if read_fails rules mid then Inl LoadFailure
      else (let df = sort_key date (filter (\<lambda>p. metal_id p = mid) (price_data db))
            in if df = [] then Inr None else Inr (Some df)))"

text \<open>What the driver prints.\<close>

datatype line =
  Banner
| AssetHeader string int
| NoPriceData
| InsertedFeatures nat
| InsertedRisk nat
| Done
| TotalFeatures nat
| TotalRisk nat

record run_state =
  store :: database
  total_feat :: nat
  total_risk :: nat
  printed :: "line list"

definition print :: "line \<Rightarrow> run_state \<Rightarrow> run_state" where
  "print l st = st\<lparr>printed := printed st @ [l]\<rparr>"

text \<open>
  The loop over the metals. An exception of the loader or of a writer is not caught: it
  ends the run with the state reached so far.
\<close>

fun main_loop ::
  "fill_method \<Rightarrow> store_rules \<Rightarrow> (int \<times> string) list \<Rightarrow> run_state \<Rightarrow> run_state \<times> error option" where
  "main_loop fm rules [] st = (st, None)"
| "main_loop fm rules ((mid, metal_name) # rest) st =
     (let st1 = print (AssetHeader metal_name mid) st in
      case load_price_data rules (store st1) mid of
        Inl e \<Rightarrow> (st1, Some e)
      | Inr None \<Rightarrow> main_loop fm rules rest (print NoPriceData st1)
      | Inr (Some df) \<Rightarrow>
          (let df_feat = build_features fm df in
           case upsert_technical_features rules (store st1) df_feat of
             (db2, Inl e) \<Rightarrow> (st1\<lparr>store := db2\<rparr>, Some e)
           | (db2, Inr n_feat) \<Rightarrow>
               (case upsert_risk_events rules db2 df_feat of
                  (db3, Inl e) \<Rightarrow> (st1\<lparr>store := db3\<rparr>, Some e)
                | (db3, Inr n_risk) \<Rightarrow>
                    main_loop fm rules rest
                      (print (InsertedRisk n_risk)
                        (print (InsertedFeatures n_feat)
                          (st1\<lparr>store := db3,
                               total_feat := total_feat st1 + n_feat,
                               total_risk := total_risk st1 + n_risk\<rparr>))))))"

text \<open>
  \<open>main\<close> reads the metals in the order of their identifiers, runs the loop and prints
  the totals. \<open>Banner\<close> stands for the heading lines; the closing hints, fixed text
  after the totals, are left out. When the loader or a writer raises, nothing is printed
  any more.
\<close>

definition main :: "fill_method \<Rightarrow> store_rules \<Rightarrow> database \<Rightarrow> run_state \<times> error option" where
  "main fm rules db0 =
     (let start = \<lparr>store = db0, total_feat = 0, total_risk = 0, printed = [Banner]\<rparr> in
      case main_loop fm rules (sort_key fst (metals db0)) start of
        (st, Some e) \<Rightarrow> (st, Some e)
      | (st, None) \<Rightarrow>
          (print (TotalRisk (total_risk st))
            (print (TotalFeatures (total_feat st)) (print Done st)), None))"

section \<open>Example inputs\<close>

text \<open>Concrete series on which the theorems below are exercised.\<close>

definition flat_point :: "date \<Rightarrow> real \<Rightarrow> price_point" where
  "flat_point d c =
     \<lparr>metal_id = 1, date = d, open_price = c, high = c, low = c, close = c,
      volume = Some 1000\<rparr>"

definition rising_prices :: "price_point list" where
  "rising_prices =
     [flat_point 0 1, flat_point 1 2, flat_point 2 3, flat_point 3 4, flat_point 4 5,
      flat_point 5 6, flat_point 6 7, flat_point 7 8, flat_point 8 9, flat_point 9 10,
      flat_point 10 11, flat_point 11 12, flat_point 12 13, flat_point 13 14]"

text \<open>The three closes 100, 97, 99.\<close>

definition spec_example :: "price_point list" where
  "spec_example = [flat_point 0 100, flat_point 1 97, flat_point 2 99]"

text \<open>
  A frame given row by row: the first row lacks two indicators, the second is complete.
\<close>

definition full_ind :: indicators where
  "full_ind =
     \<lparr>daily_return = Fin 1, log_return = Fin 1, sma_5 = Fin 1, sma_10 = Fin 1, sma_20 = Fin 1,
      sma_50 = Fin 1, ema_12 = Fin 1, ema_26 = Fin 1, bollinger_upper = Fin 1,
      bollinger_middle = Fin 1, bollinger_lower = Fin 1, bollinger_width = Fin 1,
      rsi_14 = Fin 50, macd = Fin 1, macd_signal = Fin 1, macd_histogram = Fin 0,
      high_low_range = Fin 1, high_low_ratio = Fin 1, volume_change = Fin 0,
      volume_sma_20 = Fin 1000\<rparr>"

definition example_frame :: "frame_row list" where
  "example_frame =
     [\<lparr>point = flat_point 0 100, ind = full_ind\<lparr>daily_return := NaN, rsi_14 := NaN\<rparr>\<rparr>,
      \<lparr>point = flat_point 1 200, ind = full_ind\<rparr>]"

text \<open>A database with one metal and no prices, and a store that accepts every row.\<close>

definition empty_db :: database where
  "empty_db =
     \<lparr>metals = [(1, ''Gold'')], price_data = [],
      technical_features = Map.empty, risk_events = Map.empty\<rparr>"

definition accept_all :: store_rules where
  "accept_all =
     \<lparr>feat_accepts = (\<lambda>k v. True), risk_accepts = (\<lambda>k v. True), empty_batch_ok = True,
      read_fails = (\<lambda>m. False)\<rparr>"

text \<open>Fourteen days at the same close.\<close>

definition flat_prices :: "price_point list" where
  "flat_prices = map (\<lambda>d. flat_point d 100) [0..<14]"

text \<open>
  Two metals, of which only the first has prices (the three days of \<open>spec_example\<close>), and
  the risk table that a run over them leaves.
\<close>

definition small_db :: database where
  "small_db =
     \<lparr>metals = [(1, ''Gold''), (2, ''Silver'')], price_data = spec_example,
      technical_features = Map.empty, risk_events = Map.empty\<rparr>"

definition spec_example_risk :: "key \<rightharpoonup> risk_event" where
  "spec_example_risk =
     [(1, 1) \<mapsto> \<lparr>is_risk_event = True, price_change_pct = Fin (- 3),
                  previous_close = Some 100, current_close = 97\<rparr>,
      (1, 2) \<mapsto> \<lparr>is_risk_event = False, price_change_pct = Fin (200 / 97),
                  previous_close = Some 97, current_close = 99\<rparr>]"

text \<open>Two days, the first with a volume and a low of zero.\<close>

definition zero_volume_prices :: "price_point list" where
  "zero_volume_prices =
     [\<lparr>metal_id = 1, date = 0, open_price = 100, high = 101, low = 0, close = 100,
       volume = Some 0\<rparr>,
      \<lparr>metal_id = 1, date = 1, open_price = 100, high = 101, low = 99, close = 100,
       volume = Some 100\<rparr>]"

text \<open>
  Fifty days of prices that rise by one each day, for any metal; a database holding them
  for two metals; a store that refuses the risk rows of every metal but the first; and the
  states that a run over this database passes through.
\<close>

definition rising_point :: "int \<Rightarrow> nat \<Rightarrow> price_point" where
  "rising_point m d =
     \<lparr>metal_id = m, date = d, open_price = 100 + real d, high = 101 + real d,
      low = 99 + real d, close = 100 + real d, volume = Some 1000\<rparr>"

definition rising_series :: "int \<Rightarrow> price_point list" where
  "rising_series m = map (rising_point m) [0..<50]"

definition two_metals_db :: database where
  "two_metals_db =
     \<lparr>metals = [(1, ''Gold''), (2, ''Silver'')],
      price_data = rising_series 1 @ rising_series 2,
      technical_features = Map.empty, risk_events = Map.empty\<rparr>"

definition refuse_silver_risk :: store_rules where
  "refuse_silver_risk =
     \<lparr>feat_accepts = (\<lambda>k v. True), risk_accepts = (\<lambda>k v. fst k = 1), empty_batch_ok = True,
      read_fails = (\<lambda>m. False)\<rparr>"

definition two_metals_final :: "fill_method \<Rightarrow> run_state" where
  "two_metals_final fm =
     \<lparr>store = two_metals_db
        \<lparr>risk_events :=
           map_of (build_risk_events (build_features fm (rising_series 1)) default_threshold),
         technical_features :=
           [(1, 49) \<mapsto> ind (build_features fm (rising_series 1) ! 49),
            (2, 49) \<mapsto> ind (build_features fm (rising_series 2) ! 49)]\<rparr>,
      total_feat = 1, total_risk = 49,
      printed = [Banner, AssetHeader ''Gold'' 1, InsertedFeatures 1, InsertedRisk 49,
                 AssetHeader ''Silver'' 2]\<rparr>"

definition after_gold :: "fill_method \<Rightarrow> run_state" where
  "after_gold fm =
     \<lparr>store = two_metals_db
        \<lparr>risk_events :=
           map_of (build_risk_events (build_features fm (rising_series 1)) default_threshold),
         technical_features :=
           [(1, 49) \<mapsto> ind (build_features fm (rising_series 1) ! 49)]\<rparr>,
      total_feat = 1, total_risk = 49,
      printed = [Banner, AssetHeader ''Gold'' 1, InsertedFeatures 1, InsertedRisk 49]\<rparr>"

definition silver_features_db :: "fill_method \<Rightarrow> database" where
  "silver_features_db fm =
     two_metals_db
       \<lparr>technical_features := [(2, 49) \<mapsto> ind (build_features fm (rising_series 2) ! 49)]\<rparr>"

text \<open>
  The driver as the library has it: no row refused, a statement with an empty list of rows
  raises, no read raises; the same driver with a read that raises for metal 1; and a
  database in which only metal 2 has prices, with the state a run over it ends in.
\<close>

definition real_driver :: store_rules where
  "real_driver =
     \<lparr>feat_accepts = (\<lambda>k v. True), risk_accepts = (\<lambda>k v. True), empty_batch_ok = False,
      read_fails = (\<lambda>m. False)\<rparr>"

definition read_error_gold :: store_rules where
  "read_error_gold =
     \<lparr>feat_accepts = (\<lambda>k v. True), risk_accepts = (\<lambda>k v. True), empty_batch_ok = False,
      read_fails = (\<lambda>m. m = 1)\<rparr>"

definition silver_only_db :: database where
  "silver_only_db =
     \<lparr>metals = [(1, ''Gold''), (2, ''Silver'')], price_data = rising_series 2,
      technical_features = Map.empty, risk_events = Map.empty\<rparr>"

definition silver_only_final :: "fill_method \<Rightarrow> run_state" where
  "silver_only_final fm =
     \<lparr>store = silver_only_db
        \<lparr>risk_events :=
           map_of (build_risk_events (build_features fm (rising_series 2)) default_threshold),
         technical_features :=
           [(2, 49) \<mapsto> ind (build_features fm (rising_series 2) ! 49)]\<rparr>,
      total_feat = 1, total_risk = 49,
      printed = [Banner, AssetHeader ''Gold'' 1, NoPriceData, AssetHeader ''Silver'' 2,
                 InsertedFeatures 1, InsertedRisk 49, Done, TotalFeatures 1, TotalRisk 49]\<rparr>"

section \<open>Auxiliary facts\<close>

lemma length_shift: "length (shift xs) = length xs"
  by (cases xs) simp_all

lemma length_diff: "length (diff xs) = length xs"
  by (simp add: diff_def length_shift)

lemma length_rolling: "length (rolling k f xs) = length xs"
  by (simp add: rolling_def)

lemma nth_rolling:
  "i < length xs \<Longrightarrow>
   rolling k f xs ! i =
     (if i + 1 < k then None else map_option f (sequence (take k (drop (i + 1 - k) xs))))"
  by (simp add: rolling_def)

lemma sequence_Some: "sequence ws = Some ys \<Longrightarrow> ws = map Some ys"
proof (induction ws arbitrary: ys)
  case Nil
  then show ?case by simp
next
  case (Cons w ws)
  then show ?case by (cases w) auto
qed

lemma sequence_Some_length: "sequence ws = Some ys \<Longrightarrow> length ys = length ws"
proof (induction ws arbitrary: ys)
  case Nil
  then show ?case by simp
next
  case (Cons w ws)
  then show ?case by (cases w) auto
qed

lemma mean_nonneg: "(\<And>y. y \<in> set ys \<Longrightarrow> 0 \<le> y) \<Longrightarrow> 0 \<le> mean ys"
  by (simp add: mean_def sum_list_nonneg)

lemma rolling_mean_nonneg:
  assumes nonneg: "\<And>x. x \<in> set xs \<Longrightarrow> \<exists>v. x = Some v \<and> 0 \<le> v"
    and i: "i < length xs" and r: "rolling k mean xs ! i = Some m"
  shows "0 \<le> m"
proof -
  from i r obtain ys where ys: "sequence (take k (drop (i + 1 - k) xs)) = Some ys" and m: "m = mean ys"
    by (auto simp: nth_rolling split: if_splits)
  have "0 \<le> y" if "y \<in> set ys" for y
  proof -
    from that sequence_Some [OF ys] have "Some y \<in> set (take k (drop (i + 1 - k) xs))"
      by simp
    then have "Some y \<in> set xs"
      by (meson in_set_dropD in_set_takeD)
    with nonneg show ?thesis by fastforce
  qed
  then show ?thesis unfolding m by (rule mean_nonneg)
qed

lemma rsi_gain_nonneg:
  assumes "i < length series" "rsi_gain series period ! i = Some g"
  shows "0 \<le> g"
proof (rule rolling_mean_nonneg)
  show "rolling period mean (series_where (\<lambda>d. d > 0) 0 (diff series)) ! i = Some g"
    using assms(2) by (simp add: rsi_gain_def)
  show "i < length (series_where (\<lambda>d. d > 0) 0 (diff series))"
    using assms(1) by (simp add: series_where_def length_diff)
  show "\<exists>v. x = Some v \<and> 0 \<le> v" if "x \<in> set (series_where (\<lambda>d. d > 0) 0 (diff series))" for x
    using that by (auto simp: series_where_def split: option.splits)
qed

lemma rsi_loss_nonneg:
  assumes "i < length series" "rsi_loss series period ! i = Some l"
  shows "0 \<le> l"
proof (rule rolling_mean_nonneg)
  let ?xs = "map (map_option uminus) (series_where (\<lambda>d. d < 0) 0 (diff series))"
  show "rolling period mean ?xs ! i = Some l"
    using assms(2) by (simp add: rsi_loss_def)
  show "i < length ?xs"
    using assms(1) by (simp add: series_where_def length_diff)
  show "\<exists>v. x = Some v \<and> 0 \<le> v" if "x \<in> set ?xs" for x
    using that by (auto simp: series_where_def split: option.splits)
qed

lemma rsi_of_ratio:
  assumes "0 \<le> g" "0 \<le> l"
  shows "fl_sub (Fin 100) (fl_div (Fin 100) (fl_add (Fin 1) (fl_div (Fin g) (Fin l)))) =
           (if l = 0 then (if g = 0 then NaN else Fin 100) else Fin (100 - 100 / (1 + g / l)))"
proof -
  have "1 + g / l \<noteq> 0" if "l \<noteq> 0"
  proof -
    have "0 \<le> g / l" using assms by simp
    then show ?thesis by linarith
  qed
  then show ?thesis using assms by (auto simp: fl_sub_def)
qed

lemma rsi_bounds:
  assumes "0 \<le> g" "0 < (l::real)"
  shows "0 \<le> 100 - 100 / (1 + g / l)" "100 - 100 / (1 + g / l) \<le> 100"
proof -
  have q: "0 \<le> g / l" using assms by simp
  then have "100 / (1 + g / l) \<le> 100 / 1"
    by (intro divide_left_mono) auto
  then show "0 \<le> 100 - 100 / (1 + g / l)" by simp
  have "0 \<le> 100 / (1 + g / l)" using q by simp
  then show "100 - 100 / (1 + g / l) \<le> 100" by simp
qed

lemma length_rsi_gain: "length (rsi_gain series period) = length series"
  by (simp add: rsi_gain_def length_rolling series_where_def length_diff)

lemma length_rsi_loss: "length (rsi_loss series period) = length series"
  by (simp add: rsi_loss_def length_rolling series_where_def length_diff)

lemma nth_calculate_rsi:
  "i < length series \<Longrightarrow>
   calculate_rsi series period ! i =
     fl_sub (Fin 100) (fl_div (Fin 100) (fl_add (Fin 1)
       (fl_div (of_opt (rsi_gain series period ! i)) (of_opt (rsi_loss series period ! i)))))"
  by (simp add: calculate_rsi_def length_rsi_gain length_rsi_loss)

lemma calculate_rsi_cases:
  assumes i: "i < length series"
  shows "calculate_rsi series period ! i = NaN \<or>
         (\<exists>v. calculate_rsi series period ! i = Fin v \<and> 0 \<le> v \<and> v \<le> 100)"
proof (cases "rsi_gain series period ! i")
  case None
  then show ?thesis using i by (simp add: nth_calculate_rsi fl_sub_def)
next
  case g: (Some g)
  show ?thesis
  proof (cases "rsi_loss series period ! i")
    case None
    then show ?thesis using i g by (simp add: nth_calculate_rsi fl_sub_def)
  next
    case l: (Some l)
    have g0: "0 \<le> g" using rsi_gain_nonneg [OF i g] .
    have l0: "0 \<le> l" using rsi_loss_nonneg [OF i l] .
    have eq: "calculate_rsi series period ! i =
        (if l = 0 then (if g = 0 then NaN else Fin 100) else Fin (100 - 100 / (1 + g / l)))"
      unfolding nth_calculate_rsi [OF i] g l of_opt.simps by (rule rsi_of_ratio [OF g0 l0])
    show ?thesis
    proof (cases "l = 0")
      case True
      then show ?thesis unfolding eq by simp
    next
      case False
      with l0 have "0 < l" by simp
      from rsi_bounds [OF g0 this] False show ?thesis unfolding eq by simp
    qed
  qed
qed

lemma calculate_rsi_saturates:
  assumes i: "i < length series"
    and l: "rsi_loss series period ! i = Some 0"
    and g: "rsi_gain series period ! i = Some g" and pos: "0 < g"
  shows "calculate_rsi series period ! i = Fin 100"
  using assms by (simp add: nth_calculate_rsi fl_sub_def)

lemma length_closes: "length (closes df) = length df"
  by (simp add: closes_def)

lemma build_features_length: "length (build_features fm df) = length df"
  by (simp add: build_features_def Let_def split_def)

lemma build_features_rsi_14:
  "i < length df \<Longrightarrow> rsi_14 (ind (build_features fm df ! i)) = calculate_rsi (closes df) 14 ! i"
  by (simp add: build_features_def Let_def split_def)

lemma closes_rising: "closes rising_prices = map Some [1,2,3,4,5,6,7,8,9,10,11,12,13,14]"
  by (simp add: closes_def rising_prices_def flat_point_def)

lemma rising_gain: "rsi_gain (closes rising_prices) 14 ! 13 = Some (13 / 14)"
  by (simp add: closes_rising rsi_gain_def nth_rolling diff_def series_where_def mean_def)

lemma rising_loss: "rsi_loss (closes rising_prices) 14 ! 13 = Some 0"
  by (simp add: closes_rising rsi_loss_def nth_rolling diff_def series_where_def mean_def)

lemma span_alpha_eq: "span_alpha k = 2 / (k + 1)"
proof -
  have h: "1 + (k - 1) / 2 = (k + 1) / 2"
    by (simp add: diff_divide_distrib add_divide_distrib)
  show ?thesis unfolding span_alpha_def h by simp
qed

lemma length_ewm_loop: "length (ewm_loop a w ow xs) = length xs"
  by (induction xs arbitrary: w ow) (auto split: option.splits simp: Let_def)

lemma length_ewm_mean: "length (ewm_mean k xs) = length xs"
  by (cases xs) (simp_all add: length_ewm_loop)

lemma ewm_loop_step:
  "ewm_loop a (Some w) 1 (Some c # rest) =
     Some (a * c + (1 - a) * w) # ewm_loop a (Some (a * c + (1 - a) * w)) 1 rest"
proof -
  have same: "w = c \<Longrightarrow> w = a * c + (1 - a) * w" by (simp add: algebra_simps)
  have "(1 * (1 - a) * w + a * c) / (1 * (1 - a) + a) = a * c + (1 - a) * w" by simp
  then show ?thesis using same by (simp add: Let_def del: mult_1 mult_1_left)
qed

lemma ewm_loop_recurrence:
  "i < length cs \<Longrightarrow>
   \<exists>e. ewm_loop a (Some w) 1 (map Some cs) ! i = Some e \<and>
       (i = 0 \<longrightarrow> e = a * cs ! 0 + (1 - a) * w) \<and>
       (0 < i \<longrightarrow> (\<exists>p. ewm_loop a (Some w) 1 (map Some cs) ! (i - 1) = Some p \<and>
                      e = a * cs ! i + (1 - a) * p))"
proof (induction cs arbitrary: w i)
  case Nil
  then show ?case by simp
next
  case (Cons c cs)
  let ?w = "a * c + (1 - a) * w"
  have unfold: "ewm_loop a (Some w) 1 (map Some (c # cs)) = Some ?w # ewm_loop a (Some ?w) 1 (map Some cs)"
    by (simp only: list.map ewm_loop_step)
  show ?case
  proof (cases i)
    case 0
    then show ?thesis unfolding unfold by simp
  next
    case (Suc j)
    with Cons.prems have j: "j < length cs" by simp
    from Cons.IH [OF j, of ?w] obtain e where
      e: "ewm_loop a (Some ?w) 1 (map Some cs) ! j = Some e"
      and e0: "j = 0 \<longrightarrow> e = a * cs ! 0 + (1 - a) * ?w"
      and eS: "0 < j \<longrightarrow> (\<exists>p. ewm_loop a (Some ?w) 1 (map Some cs) ! (j - 1) = Some p \<and>
                      e = a * cs ! j + (1 - a) * p)"
      by blast
    show ?thesis
    proof (cases j)
      case 0
      with e e0 Suc show ?thesis unfolding unfold by simp
    next
      case (Suc j')
      with eS obtain p where "ewm_loop a (Some ?w) 1 (map Some cs) ! j' = Some p"
        "e = a * cs ! j + (1 - a) * p" by auto
      with e Suc \<open>i = Suc j\<close> show ?thesis unfolding unfold by simp
    qed
  qed
qed

lemma ewm_mean_recurrence:
  assumes "i < length cs"
  shows "\<exists>e. ewm_mean k (map Some cs) ! i = Some e \<and>
       (i = 0 \<longrightarrow> e = cs ! 0) \<and>
       (0 < i \<longrightarrow> (\<exists>p. ewm_mean k (map Some cs) ! (i - 1) = Some p \<and>
                      e = 2 / (k + 1) * cs ! i + (1 - 2 / (k + 1)) * p))"
proof (cases cs)
  case Nil
  with assms show ?thesis by simp
next
  case (Cons c rest)
  let ?a = "span_alpha k"
  have unfold: "ewm_mean k (map Some cs) = Some c # ewm_loop ?a (Some c) 1 (map Some rest)"
    by (simp add: Cons)
  show ?thesis
  proof (cases i)
    case 0
    then show ?thesis unfolding unfold by (simp add: Cons)
  next
    case (Suc j)
    with assms Cons have j: "j < length rest" by simp
    from ewm_loop_recurrence [OF j, of ?a c] obtain e where
      e: "ewm_loop ?a (Some c) 1 (map Some rest) ! j = Some e"
      and e0: "j = 0 \<longrightarrow> e = ?a * rest ! 0 + (1 - ?a) * c"
      and eS: "0 < j \<longrightarrow> (\<exists>p. ewm_loop ?a (Some c) 1 (map Some rest) ! (j - 1) = Some p \<and>
                      e = ?a * rest ! j + (1 - ?a) * p)"
      by blast
    show ?thesis
    proof (cases j)
      case 0
      with e e0 Suc show ?thesis unfolding unfold by (simp add: Cons span_alpha_eq)
    next
      case (Suc j')
      with eS obtain p where "ewm_loop ?a (Some c) 1 (map Some rest) ! j' = Some p"
        "e = ?a * rest ! j + (1 - ?a) * p" by auto
      with e Suc \<open>i = Suc j\<close> show ?thesis unfolding unfold by (simp add: Cons span_alpha_eq)
    qed
  qed
qed

lemma all_Some_list:
  assumes "\<And>i. i < length xs \<Longrightarrow> \<exists>e. xs ! i = Some e"
  shows "xs = map Some (map the xs)"
proof (rule nth_equalityI)
  show "length xs = length (map Some (map the xs))" by simp
  fix i assume "i < length xs"
  with assms [of i] show "xs ! i = map Some (map the xs) ! i" by auto
qed

lemma ewm_mean_all_Some: "\<exists>es. ewm_mean k (map Some cs) = map Some es \<and> length es = length cs"
proof -
  have "\<exists>e. ewm_mean k (map Some cs) ! i = Some e" if "i < length (ewm_mean k (map Some cs))" for i
    using ewm_mean_recurrence [of i cs k] that by (auto simp: length_ewm_mean)
  from all_Some_list [OF this]
  have "ewm_mean k (map Some cs) = map Some (map the (ewm_mean k (map Some cs)))" by blast
  moreover have "length (map the (ewm_mean k (map Some cs))) = length cs"
    by (simp add: length_ewm_mean)
  ultimately show ?thesis by blast
qed

lemma macd_all_Some:
  "\<exists>ms. map2 opt_sub (ewm_mean f (map Some cs)) (ewm_mean s (map Some cs)) = map Some ms \<and>
        length ms = length cs"
proof -
  obtain fs where fs: "ewm_mean f (map Some cs) = map Some fs" "length fs = length cs"
    using ewm_mean_all_Some by blast
  obtain ss where ss: "ewm_mean s (map Some cs) = map Some ss" "length ss = length cs"
    using ewm_mean_all_Some by blast
  have "map2 opt_sub (map Some fs) (map Some ss) = map Some (map2 (-) fs ss)"
    by (simp add: zip_map_map split_def)
  with fs ss show ?thesis by (intro exI [of _ "map2 (-) fs ss"]) simp
qed

lemma build_features_ema_12:
  "i < length df \<Longrightarrow> ema_12 (ind (build_features fm df ! i)) = of_opt (ewm_mean 12 (closes df) ! i)"
  by (simp add: build_features_def Let_def split_def)

lemma build_features_ema_26:
  "i < length df \<Longrightarrow> ema_26 (ind (build_features fm df ! i)) = of_opt (ewm_mean 26 (closes df) ! i)"
  by (simp add: build_features_def Let_def split_def)

lemma build_features_macd:
  "i < length df \<Longrightarrow> macd (ind (build_features fm df ! i)) =
     of_opt (map2 opt_sub (ewm_mean 12 (closes df)) (ewm_mean 26 (closes df)) ! i)"
  by (simp add: build_features_def Let_def split_def calculate_macd_def)

lemma build_features_macd_signal:
  "i < length df \<Longrightarrow> macd_signal (ind (build_features fm df ! i)) =
     of_opt (ewm_mean 9 (map2 opt_sub (ewm_mean 12 (closes df)) (ewm_mean 26 (closes df))) ! i)"
  by (simp add: build_features_def Let_def split_def calculate_macd_def)

lemma closes_map: "closes df = map Some (map close df)"
  by (simp add: closes_def)

lemma ewm_closes_recurrence:
  assumes "i < length df"
  shows "\<exists>e. of_opt (ewm_mean k (closes df) ! i) = Fin e \<and>
       (i = 0 \<longrightarrow> e = close (df ! 0)) \<and>
       (0 < i \<longrightarrow> (\<exists>p. of_opt (ewm_mean k (closes df) ! (i - 1)) = Fin p \<and>
                      e = 2 / (k + 1) * close (df ! i) + (1 - 2 / (k + 1)) * p))"
proof -
  have i: "i < length (map close df)" using assms by simp
  from ewm_mean_recurrence [OF i, of k] obtain e where
    e: "ewm_mean k (map Some (map close df)) ! i = Some e"
    and e0: "i = 0 \<longrightarrow> e = map close df ! 0"
    and eS: "0 < i \<longrightarrow> (\<exists>p. ewm_mean k (map Some (map close df)) ! (i - 1) = Some p \<and>
                      e = 2 / (k + 1) * map close df ! i + (1 - 2 / (k + 1)) * p)"
    by blast
  have "of_opt (ewm_mean k (closes df) ! i) = Fin e" unfolding closes_map e by simp
  moreover have "i = 0 \<longrightarrow> e = close (df ! 0)" using e0 assms by auto
  moreover have "0 < i \<longrightarrow> (\<exists>p. of_opt (ewm_mean k (closes df) ! (i - 1)) = Fin p \<and>
                      e = 2 / (k + 1) * close (df ! i) + (1 - 2 / (k + 1)) * p)"
    using eS assms unfolding closes_map by auto
  ultimately show ?thesis by blast
qed

lemma signal_recurrence:
  assumes "i < length df"
  shows "\<exists>s m. of_opt (ewm_mean k (map2 opt_sub (ewm_mean f (closes df)) (ewm_mean sl (closes df))) ! i) = Fin s \<and>
       of_opt (map2 opt_sub (ewm_mean f (closes df)) (ewm_mean sl (closes df)) ! i) = Fin m \<and>
       (i = 0 \<longrightarrow> s = m) \<and>
       (0 < i \<longrightarrow> (\<exists>p. of_opt (ewm_mean k (map2 opt_sub (ewm_mean f (closes df)) (ewm_mean sl (closes df))) ! (i - 1)) = Fin p \<and>
                      s = 2 / (k + 1) * m + (1 - 2 / (k + 1)) * p))"
proof -
  obtain ms where ms: "map2 opt_sub (ewm_mean f (closes df)) (ewm_mean sl (closes df)) = map Some ms"
    and len: "length ms = length (map close df)"
    unfolding closes_map using macd_all_Some by blast
  have i: "i < length ms" using assms len by simp
  from ewm_mean_recurrence [OF i, of k] obtain e where
    e: "ewm_mean k (map Some ms) ! i = Some e"
    and e0: "i = 0 \<longrightarrow> e = ms ! 0"
    and eS: "0 < i \<longrightarrow> (\<exists>p. ewm_mean k (map Some ms) ! (i - 1) = Some p \<and>
                      e = 2 / (k + 1) * ms ! i + (1 - 2 / (k + 1)) * p)"
    by blast
  show ?thesis
  proof (rule exI [of _ e], rule exI [of _ "ms ! i"], intro conjI)
    show "of_opt (ewm_mean k (map2 opt_sub (ewm_mean f (closes df)) (ewm_mean sl (closes df))) ! i) = Fin e"
      by (simp add: ms e)
    show "of_opt (map2 opt_sub (ewm_mean f (closes df)) (ewm_mean sl (closes df)) ! i) = Fin (ms ! i)"
      unfolding ms using i by simp
    show "i = 0 \<longrightarrow> e = ms ! i" using e0 by simp
    show "0 < i \<longrightarrow> (\<exists>p. of_opt (ewm_mean k (map2 opt_sub (ewm_mean f (closes df)) (ewm_mean sl (closes df))) ! (i - 1)) = Fin p \<and>
                      e = 2 / (k + 1) * ms ! i + (1 - 2 / (k + 1)) * p)"
      using eS by (auto simp: ms)
  qed
qed

lemma nth_shift: "i < length xs \<Longrightarrow> shift xs ! i = (if i = 0 then None else xs ! (i - 1))"
  by (cases xs) (auto simp: nth_Cons' nth_butlast)

lemma ffill_from_Some: "ffill_from prev (map Some cs) = map Some cs"
  by (induction cs arbitrary: prev) simp_all

lemma length_pct_change: "length (pct_change fm xs) = length xs"
proof (cases fm)
  case Pad
  have "length (ffill_from prev xs) = length xs" for prev
  proof (induction xs arbitrary: prev)
    case Nil
    then show ?case by simp
  next
    case (Cons x xs)
    then show ?case by (cases x) simp_all
  qed
  then show ?thesis by (simp add: pct_change_def Pad ffill_def length_shift Let_def)
next
  case NoFill
  then show ?thesis by (simp add: pct_change_def length_shift Let_def)
qed

lemma pct_change_Some:
  assumes "i < length cs"
  shows "pct_change fm (map Some cs) ! i =
           (if i = 0 then NaN else fl_sub (fl_div (Fin (cs ! i)) (Fin (cs ! (i - 1)))) (Fin 1))"
proof -
  have data: "(case fm of Pad \<Rightarrow> ffill (map Some cs) | NoFill \<Rightarrow> map Some cs) = map Some cs"
    by (cases fm) (simp_all add: ffill_def ffill_from_Some)
  show ?thesis
    unfolding pct_change_def data Let_def using assms
    by (simp add: length_shift nth_shift fl_sub_def)
qed

lemma build_features_daily_return:
  "i < length df \<Longrightarrow> daily_return (ind (build_features fm df ! i)) = pct_change fm (closes df) ! i"
  by (simp add: build_features_def Let_def split_def)

lemma build_features_point:
  "i < length df \<Longrightarrow> point (build_features fm df ! i) = df ! i"
  by (simp add: build_features_def Let_def split_def)

lemma map_point_build_features: "map point (build_features fm df) = df"
  by (rule nth_equalityI) (simp_all add: build_features_length build_features_point)

lemma daily_return_positive:
  assumes pos: "\<forall>p \<in> set df. 0 < close p" and i: "i < length df"
  shows "daily_return (ind (build_features fm df ! i)) =
           (if i = 0 then NaN else Fin (close (df ! i) / close (df ! (i - 1)) - 1))"
proof -
  have il: "i < length (map close df)" using i by simp
  have "close (df ! (i - 1)) \<noteq> 0"
  proof -
    have "df ! (i - 1) \<in> set df" using i by simp
    with pos have "0 < close (df ! (i - 1))" by blast
    then show ?thesis by simp
  qed
  then show ?thesis
    unfolding build_features_daily_return [OF i] closes_map pct_change_Some [OF il]
    using i by (simp add: fl_sub_def)
qed

lemma filter_nonzero_upt: "filter (\<lambda>i. i \<noteq> 0) [0..<n] = [1..<n]"
proof (cases n)
  case 0
  then show ?thesis by simp
next
  case (Suc m)
  have "filter (\<lambda>i. i \<noteq> 0) [Suc 0..<Suc m] = [Suc 0..<Suc m]"
    by (rule filter_True) auto
  then show ?thesis by (simp add: Suc upt_rec [of 0])
qed

lemma insert_row_Inr:
  "insert_row accepts tbl (k, v) = Inr tbl' \<Longrightarrow>
   accepts k v \<and> tbl' = (case tbl k of Some old \<Rightarrow> tbl | None \<Rightarrow> tbl(k \<mapsto> v))"
  by (auto simp: insert_row_def split: if_splits option.splits)

lemma insert_rows_accepted:
  "insert_rows accepts tbl rows = Inr tbl' \<Longrightarrow> (k, v) \<in> set rows \<Longrightarrow> accepts k v"
proof (induction rows arbitrary: tbl)
  case Nil
  then show ?case by simp
next
  case (Cons kv rows)
  obtain k0 v0 where kv: "kv = (k0, v0)" by (cases kv)
  from Cons.prems(1) obtain t where t: "insert_row accepts tbl (k0, v0) = Inr t"
    and rest: "insert_rows accepts t rows = Inr tbl'"
    by (auto simp: kv split: sum.splits)
  from insert_row_Inr [OF t] Cons.IH [OF rest] Cons.prems(2) show ?case
    by (auto simp: kv)
qed

lemma insert_rows_origin:
  "insert_rows accepts tbl rows = Inr tbl' \<Longrightarrow> tbl' k = Some v \<Longrightarrow>
   tbl k = Some v \<or> (k, v) \<in> set rows"
proof (induction rows arbitrary: tbl)
  case Nil
  then show ?case by simp
next
  case (Cons kv rows)
  obtain k0 v0 where kv: "kv = (k0, v0)" by (cases kv)
  from Cons.prems(1) obtain t where t: "insert_row accepts tbl (k0, v0) = Inr t"
    and rest: "insert_rows accepts t rows = Inr tbl'"
    by (auto simp: kv split: sum.splits)
  from Cons.IH [OF rest Cons.prems(2)] have "t k = Some v \<or> (k, v) \<in> set rows" .
  with insert_row_Inr [OF t] show ?case
    by (auto simp: kv split: option.splits if_splits)
qed

lemma insert_rows_keeps:
  "insert_rows accepts tbl rows = Inr tbl' \<Longrightarrow> tbl k = Some v \<Longrightarrow> tbl' k = Some v"
proof (induction rows arbitrary: tbl)
  case Nil
  then show ?case by simp
next
  case (Cons kv rows)
  obtain k0 v0 where kv: "kv = (k0, v0)" by (cases kv)
  from Cons.prems(1) obtain t where t: "insert_row accepts tbl (k0, v0) = Inr t"
    and rest: "insert_rows accepts t rows = Inr tbl'"
    by (auto simp: kv split: sum.splits)
  from insert_row_Inr [OF t] Cons.prems(2) have "t k = Some v"
    by (auto split: option.splits)
  from Cons.IH [OF rest this] show ?case .
qed

lemma insert_rows_dom:
  "insert_rows accepts tbl rows = Inr tbl' \<Longrightarrow> dom tbl' = dom tbl \<union> fst ` set rows"
proof (induction rows arbitrary: tbl)
  case Nil
  then show ?case by simp
next
  case (Cons kv rows)
  obtain k0 v0 where kv: "kv = (k0, v0)" by (cases kv)
  from Cons.prems(1) obtain t where t: "insert_row accepts tbl (k0, v0) = Inr t"
    and rest: "insert_rows accepts t rows = Inr tbl'"
    by (auto simp: kv split: sum.splits)
  from insert_row_Inr [OF t] have "dom t = insert k0 (dom tbl)"
    by (auto split: option.splits)
  with Cons.IH [OF rest] show ?case by (auto simp: kv)
qed

lemma insert_rows_noop:
  assumes "\<And>k v. (k, v) \<in> set rows \<Longrightarrow> accepts k v \<and> k \<in> dom tbl"
  shows "insert_rows accepts tbl rows = Inr tbl"
  using assms
proof (induction rows)
  case Nil
  then show ?case by simp
next
  case (Cons kv rows)
  obtain k0 v0 where kv: "kv = (k0, v0)" by (cases kv)
  from Cons.prems [of k0 v0] have "insert_row accepts tbl (k0, v0) = Inr tbl"
    by (auto simp: kv insert_row_def)
  moreover have "insert_rows accepts tbl rows = Inr tbl"
  proof (rule Cons.IH)
    fix k v assume "(k, v) \<in> set rows"
    then have "(k, v) \<in> set (kv # rows)" by simp
    then show "accepts k v \<and> k \<in> dom tbl" by (rule Cons.prems)
  qed
  ultimately show ?case by (simp add: kv)
qed

lemma insert_rows_again:
  assumes "insert_rows accepts tbl rows = Inr tbl'"
  shows "insert_rows accepts tbl' rows = Inr tbl'"
proof (rule insert_rows_noop)
  fix k v assume kv: "(k, v) \<in> set rows"
  then have "k \<in> fst ` set rows" by force
  with insert_rows_dom [OF assms] have "k \<in> dom tbl'" by simp
  with insert_rows_accepted [OF assms kv] show "accepts k v \<and> k \<in> dom tbl'" by simp
qed

lemma execute_again:
  assumes "execute ok accepts tbl rows = Inr tbl'"
  shows "execute ok accepts tbl' rows = Inr tbl'"
proof -
  from assms have ne: "\<not> (rows = [] \<and> \<not> ok)" and ins: "insert_rows accepts tbl rows = Inr tbl'"
    by (auto simp: execute_def split: if_splits)
  from insert_rows_again [OF ins] ne show ?thesis by (simp add: execute_def)
qed

lemma upsert_technical_features_Inr:
  "upsert_technical_features rules db df = (db', Inr n) \<longleftrightarrow>
   (\<exists>tbl. execute (empty_batch_ok rules) (feat_accepts rules) (technical_features db) (feature_batch df) = Inr tbl \<and>
          db' = db\<lparr>technical_features := tbl\<rparr> \<and> n = length (feature_batch df))"
  by (auto simp: upsert_technical_features_def begin_transaction_def Let_def split: sum.splits)

lemma upsert_technical_features_Inl:
  "upsert_technical_features rules db df = (db', Inl e) \<longleftrightarrow>
   (execute (empty_batch_ok rules) (feat_accepts rules) (technical_features db) (feature_batch df) = Inl e \<and>
    db' = db\<lparr>technical_features := technical_features db\<rparr>)"
  by (auto simp: upsert_technical_features_def begin_transaction_def Let_def split: sum.splits)

lemma upsert_risk_events_Inr:
  "upsert_risk_events rules db df = (db', Inr n) \<longleftrightarrow>
   (\<exists>tbl. execute (empty_batch_ok rules) (risk_accepts rules) (risk_events db)
            (build_risk_events df default_threshold) = Inr tbl \<and>
          db' = db\<lparr>risk_events := tbl\<rparr> \<and> n = length (build_risk_events df default_threshold))"
  by (auto simp: upsert_risk_events_def begin_transaction_def Let_def split: sum.splits)

lemma upsert_risk_events_Inl:
  "upsert_risk_events rules db df = (db', Inl e) \<longleftrightarrow>
   (execute (empty_batch_ok rules) (risk_accepts rules) (risk_events db)
      (build_risk_events df default_threshold) = Inl e \<and>
    db' = db\<lparr>risk_events := risk_events db\<rparr>)"
  by (auto simp: upsert_risk_events_def begin_transaction_def Let_def split: sum.splits)

lemma feature_batch_complete:
  "(k, v) \<in> set (feature_batch df) \<Longrightarrow> no_absent v \<and> (\<exists>row \<in> set df. row_key row = k \<and> ind row = v)"
  by (auto simp: feature_batch_def)

lemma upsert_technical_features_origin:
  assumes "upsert_technical_features rules db0 df = (db1, r)"
    and "technical_features db1 k = Some v"
  shows "technical_features db0 k = Some v \<or>
         (no_absent v \<and> (\<exists>row \<in> set df. row_key row = k \<and> ind row = v))"
proof (cases r)
  case (Inl e)
  with assms show ?thesis by (simp add: upsert_technical_features_Inl)
next
  case (Inr n)
  with assms(1) obtain tbl where
    ex: "execute (empty_batch_ok rules) (feat_accepts rules) (technical_features db0) (feature_batch df) = Inr tbl"
    and db1: "db1 = db0\<lparr>technical_features := tbl\<rparr>"
    by (auto simp: upsert_technical_features_Inr)
  from ex have ins: "insert_rows (feat_accepts rules) (technical_features db0) (feature_batch df) = Inr tbl"
    by (auto simp: execute_def split: if_splits)
  from assms(2) db1 have "tbl k = Some v" by simp
  from insert_rows_origin [OF ins this] feature_batch_complete [of k v df] show ?thesis by blast
qed

lemma upsert_technical_features_other:
  "upsert_technical_features rules db0 df = (db1, r) \<Longrightarrow>
   risk_events db1 = risk_events db0 \<and> price_data db1 = price_data db0 \<and> metals db1 = metals db0"
  by (cases r) (auto simp: upsert_technical_features_Inl upsert_technical_features_Inr)

lemma upsert_risk_events_other:
  "upsert_risk_events rules db0 df = (db1, r) \<Longrightarrow>
   technical_features db1 = technical_features db0 \<and> price_data db1 = price_data db0 \<and>
   metals db1 = metals db0"
  by (cases r) (auto simp: upsert_risk_events_Inl upsert_risk_events_Inr)

lemma main_loop_features_origin:
  "main_loop fm rules ms st = (st', e) \<Longrightarrow> technical_features (store st') k = Some v \<Longrightarrow>
   technical_features (store st) k = Some v \<or> no_absent v"
proof (induction ms arbitrary: st)
  case Nil
  then show ?case by simp
next
  case (Cons m ms)
  obtain mid metal_name where m: "m = (mid, metal_name)" by (cases m)
  let ?st1 = "print (AssetHeader metal_name mid) st"
  have s1: "store ?st1 = store st" by (simp add: print_def)
  show ?case
  proof (cases "load_price_data rules (store ?st1) mid")
    case (Inl err)
    with Cons.prems(1) have "st' = ?st1" by (simp add: m Let_def)
    with Cons.prems(2) s1 show ?thesis by simp
  next
    case loaded: (Inr loaded)
    show ?thesis
    proof (cases loaded)
      case None
      with Cons.prems(1) loaded
      have run: "main_loop fm rules ms (print NoPriceData ?st1) = (st', e)"
        by (simp add: m Let_def)
      from Cons.IH [OF run Cons.prems(2)] show ?thesis by (simp add: print_def)
    next
      case (Some df)
      let ?df = "build_features fm df"
      obtain db2 r2 where u1: "upsert_technical_features rules (store ?st1) ?df = (db2, r2)"
        by (cases "upsert_technical_features rules (store ?st1) ?df")
      have o1: "technical_features (store st) k = Some v \<or> no_absent v"
        if "technical_features db2 k = Some v"
        using upsert_technical_features_origin [OF u1 that] unfolding s1 by blast
      show ?thesis
      proof (cases r2)
        case (Inl err)
        with Cons.prems(1) loaded Some u1 have "st' = ?st1\<lparr>store := db2\<rparr>"
          by (simp add: m Let_def)
        with Cons.prems(2) o1 show ?thesis by simp
      next
        case (Inr n_feat)
        obtain db3 r3 where u2: "upsert_risk_events rules db2 ?df = (db3, r3)"
          by (cases "upsert_risk_events rules db2 ?df")
        have t3: "technical_features db3 = technical_features db2"
          using upsert_risk_events_other [OF u2] by simp
        show ?thesis
        proof (cases r3)
          case (Inl err)
          with Cons.prems(1) loaded Some u1 u2 Inr have "st' = ?st1\<lparr>store := db3\<rparr>"
            by (simp add: m Let_def)
          with Cons.prems(2) o1 t3 show ?thesis by simp
        next
          case r3: (Inr n_risk)
          let ?st2 = "print (InsertedRisk n_risk) (print (InsertedFeatures n_feat)
                        (?st1\<lparr>store := db3, total_feat := total_feat ?st1 + n_feat,
                               total_risk := total_risk ?st1 + n_risk\<rparr>))"
          from Cons.prems(1) loaded Some u1 u2 Inr r3
          have run: "main_loop fm rules ms ?st2 = (st', e)"
            by (simp add: m Let_def)
          have "technical_features (store ?st2) k = Some v \<or> no_absent v"
            using Cons.IH [OF run Cons.prems(2)] .
          moreover have "store ?st2 = db3" by (simp add: print_def)
          ultimately show ?thesis using o1 t3 by auto
        qed
      qed
    qed
  qed
qed

lemma main_features_origin:
  assumes "main fm rules db0 = (st, e)" and "technical_features (store st) k = Some v"
  shows "technical_features db0 k = Some v \<or> no_absent v"
proof -
  let ?start = "\<lparr>store = db0, total_feat = 0, total_risk = 0, printed = [Banner]\<rparr>"
  obtain st1 e1 where loop: "main_loop fm rules (sort_key fst (metals db0)) ?start = (st1, e1)"
    by (cases "main_loop fm rules (sort_key fst (metals db0)) ?start")
  have "store st = store st1"
    using assms(1) loop by (cases e1) (auto simp: main_def print_def)
  with assms(2) main_loop_features_origin [OF loop, of k v] show ?thesis by simp
qed

lemma example_feature_batch: "feature_batch example_frame = [((1, 1), full_ind)]"
  by (simp add: feature_batch_def example_frame_def no_absent_def full_ind_def row_key_def
      flat_point_def)

lemma example_upsert_features:
  "upsert_technical_features accept_all empty_db example_frame =
     (empty_db\<lparr>technical_features := [(1, 1) \<mapsto> full_ind]\<rparr>, Inr 1)"
  by (simp add: upsert_technical_features_def example_feature_batch begin_transaction_def
      execute_def insert_row_def accept_all_def empty_db_def)

lemma insert_row_conflict:
  "tbl k = Some old \<Longrightarrow>
   insert_row accepts tbl (k, v) = (if accepts k v then Inr tbl else Inl PersistenceFailure)"
  by (simp add: insert_row_def)

lemma upsert_technical_features_again:
  assumes "upsert_technical_features rules db0 df = (db1, Inr n)"
  shows "upsert_technical_features rules db1 df = (db1, Inr n) \<and> n = length (feature_batch df)"
proof -
  from assms obtain tbl where
    ex: "execute (empty_batch_ok rules) (feat_accepts rules) (technical_features db0) (feature_batch df) = Inr tbl"
    and db1: "db1 = db0\<lparr>technical_features := tbl\<rparr>" and n: "n = length (feature_batch df)"
    by (auto simp: upsert_technical_features_Inr)
  from execute_again [OF ex] db1 n show ?thesis
    by (simp add: upsert_technical_features_Inr)
qed

lemma upsert_risk_events_again:
  assumes "upsert_risk_events rules db0 df = (db1, Inr n)"
  shows "upsert_risk_events rules db1 df = (db1, Inr n) \<and>
         n = length (build_risk_events df default_threshold)"
proof -
  from assms obtain tbl where
    ex: "execute (empty_batch_ok rules) (risk_accepts rules) (risk_events db0)
           (build_risk_events df default_threshold) = Inr tbl"
    and db1: "db1 = db0\<lparr>risk_events := tbl\<rparr>"
    and n: "n = length (build_risk_events df default_threshold)"
    by (auto simp: upsert_risk_events_Inr)
  from execute_again [OF ex] db1 n show ?thesis
    by (simp add: upsert_risk_events_Inr)
qed

lemma example_risk_batch:
  "build_risk_events example_frame default_threshold =
     [((1, 1), \<lparr>is_risk_event = False, price_change_pct = Fin 100,
                previous_close = Some 100, current_close = 200\<rparr>)]"
  by (simp add: build_risk_events_def example_frame_def full_ind_def row_key_def
      flat_point_def closes_def default_threshold_def)

lemma example_upsert_risk:
  "upsert_risk_events accept_all empty_db example_frame =
     (empty_db\<lparr>risk_events := [(1, 1) \<mapsto> \<lparr>is_risk_event = False, price_change_pct = Fin 100,
                previous_close = Some 100, current_close = 200\<rparr>]\<rparr>, Inr 1)"
  by (simp add: upsert_risk_events_def example_risk_batch begin_transaction_def
      execute_def insert_row_def accept_all_def empty_db_def)

lemma nth_diff:
  "j < length xs \<Longrightarrow> diff xs ! j = (if j = 0 then None else opt_sub (xs ! j) (xs ! (j - 1)))"
proof -
  assume j: "j < length xs"
  have "opt_sub x None = None" for x by (cases x) simp_all
  with j show ?thesis by (simp add: diff_def length_shift nth_shift)
qed

lemma sequence_replicate: "sequence (replicate k (Some x)) = Some (replicate k x)"
  by (induction k) simp_all

lemma mean_replicate_zero: "mean (replicate k 0) = 0"
  by (simp add: mean_def sum_list_replicate)

lemma rolling_mean_zero:
  assumes i: "i < length xs" and k: "k \<le> i + 1"
    and zero: "\<And>j. i + 1 - k \<le> j \<Longrightarrow> j \<le> i \<Longrightarrow> xs ! j = Some 0"
  shows "rolling k mean xs ! i = Some 0"
proof -
  have w: "take k (drop (i + 1 - k) xs) = replicate k (Some 0)"
  proof (rule nth_equalityI)
    show "length (take k (drop (i + 1 - k) xs)) = length (replicate k (Some (0::real)))"
      using i k by simp
    fix n assume "n < length (take k (drop (i + 1 - k) xs))"
    then have n: "n < k" by simp
    then have "xs ! (i + 1 - k + n) = Some 0" using k by (intro zero) auto
    with n i k show "take k (drop (i + 1 - k) xs) ! n = replicate k (Some 0) ! n" by simp
  qed
  show ?thesis
    unfolding nth_rolling [OF i] w using k
    by (simp add: sequence_replicate mean_replicate_zero)
qed

lemma flat_window_gain_loss:
  assumes i: "i < length df" and w: "13 \<le> i"
    and flat: "\<And>j. i - 13 \<le> j \<Longrightarrow> j \<le> i \<Longrightarrow> 0 < j \<Longrightarrow> close (df ! j) = close (df ! (j - 1))"
  shows "rsi_gain (closes df) 14 ! i = Some 0" "rsi_loss (closes df) 14 ! i = Some 0"
proof -
  have d: "diff (closes df) ! j = (if j = 0 then None else Some 0)"
    if "i - 13 \<le> j" "j \<le> i" for j
  proof -
    from that i have j: "j < length (closes df)" by (simp add: length_closes)
    show ?thesis
    proof (cases "j = 0")
      case True
      then show ?thesis using j by (simp add: nth_diff)
    next
      case False
      with flat [OF that] have "close (df ! j) = close (df ! (j - 1))" by simp
      with False j show ?thesis by (simp add: nth_diff closes_def)
    qed
  qed
  show "rsi_gain (closes df) 14 ! i = Some 0"
    unfolding rsi_gain_def
  proof (rule rolling_mean_zero)
    show "i < length (series_where (\<lambda>d. d > 0) 0 (diff (closes df)))"
      using i by (simp add: series_where_def length_diff length_closes)
    show "14 \<le> i + 1" using w by simp
    fix j assume j: "i + 1 - 14 \<le> j" "j \<le> i"
    then have "i - 13 \<le> j" by simp
    from d [OF this j(2)] j(2) i
    show "series_where (\<lambda>d. d > 0) 0 (diff (closes df)) ! j = Some 0"
      by (simp add: series_where_def length_diff length_closes)
  qed
  show "rsi_loss (closes df) 14 ! i = Some 0"
    unfolding rsi_loss_def
  proof (rule rolling_mean_zero)
    show "i < length (map (map_option uminus) (series_where (\<lambda>d. d < 0) 0 (diff (closes df))))"
      using i by (simp add: series_where_def length_diff length_closes)
    show "14 \<le> i + 1" using w by simp
    fix j assume j: "i + 1 - 14 \<le> j" "j \<le> i"
    then have "i - 13 \<le> j" by simp
    from d [OF this j(2)] j(2) i
    show "map (map_option uminus) (series_where (\<lambda>d. d < 0) 0 (diff (closes df))) ! j = Some 0"
      by (simp add: series_where_def length_diff length_closes)
  qed
qed

lemma feature_batch_keys:
  assumes dist: "distinct (map row_key F)" and i: "i < length F"
    and inc: "\<not> no_absent (ind (F ! i))"
  shows "row_key (F ! i) \<notin> fst ` set (feature_batch F)"
proof
  assume "row_key (F ! i) \<in> fst ` set (feature_batch F)"
  then obtain v where "(row_key (F ! i), v) \<in> set (feature_batch F)" by force
  from feature_batch_complete [OF this] obtain row where
    row: "row \<in> set F" "row_key row = row_key (F ! i)" "ind row = v" and v: "no_absent v"
    by blast
  from row(1) obtain j where j: "j < length F" "F ! j = row" by (auto simp: in_set_conv_nth)
  from dist i j row(2) have "j = i"
    by (metis length_map nth_eq_iff_index_eq nth_map)
  with j row(3) v inc show False by simp
qed

lemma build_risk_events_positive:
  assumes "\<forall>p \<in> set df. 0 < close p"
  shows "build_risk_events (build_features fm df) thr =
           map (\<lambda>i. ((metal_id (df ! i), date (df ! i)),
                     \<lparr>is_risk_event = (close (df ! i) / close (df ! (i - 1)) - 1 \<le> thr),
                      price_change_pct = Fin ((close (df ! i) / close (df ! (i - 1)) - 1) * 100),
                      previous_close = Some (close (df ! (i - 1))),
                      current_close = close (df ! i)\<rparr>))
               [1..<length df]"
proof -
  let ?F = "build_features fm df"
  let ?prev = "shift (closes df)"
  have prev: "?prev ! i = (if i = 0 then None else Some (close (df ! (i - 1))))"
    if "i < length df" for i
    using that by (simp add: nth_shift closes_def)
  have keep: "filter (\<lambda>i. ?prev ! i \<noteq> None \<and> \<not> is_nan (daily_return (ind (?F ! i)))) [0..<length df]
      = [1..<length df]"
  proof -
    have "filter (\<lambda>i. ?prev ! i \<noteq> None \<and> \<not> is_nan (daily_return (ind (?F ! i)))) [0..<length df]
        = filter (\<lambda>i. i \<noteq> 0) [0..<length df]"
      by (rule filter_cong) (auto simp: prev daily_return_positive [OF assms])
    then show ?thesis by (simp only: filter_nonzero_upt)
  qed
  show ?thesis
    unfolding build_risk_events_def Let_def map_point_build_features build_features_length keep
    by (rule map_cong)
      (auto simp: prev daily_return_positive [OF assms] build_features_point row_key_def)
qed

lemma spec_example_risk_batch:
  "build_risk_events (build_features fm spec_example) default_threshold =
     [((1, 1), \<lparr>is_risk_event = True, price_change_pct = Fin (- 3),
                previous_close = Some 100, current_close = 97\<rparr>),
      ((1, 2), \<lparr>is_risk_event = False, price_change_pct = Fin (200 / 97),
                previous_close = Some 97, current_close = 99\<rparr>)]"
proof -
  have pos: "\<forall>p \<in> set spec_example. 0 < close p"
    by (simp add: spec_example_def flat_point_def)
  have upt: "[1..<length spec_example] = [1, 2]"
    by (simp add: spec_example_def upt_rec)
  show ?thesis
    unfolding build_risk_events_positive [OF pos] upt
    by (simp add: spec_example_def flat_point_def default_threshold_def)
qed

lemma insert_rows_map_of:
  "insert_rows accepts tbl rows = Inr tbl' \<Longrightarrow> tbl' = map_of rows ++ tbl"
proof (induction rows arbitrary: tbl)
  case Nil
  then show ?case by simp
next
  case (Cons kv rows)
  obtain k0 v0 where kv: "kv = (k0, v0)" by (cases kv)
  from Cons.prems obtain t where t: "insert_row accepts tbl (k0, v0) = Inr t"
    and rest: "insert_rows accepts t rows = Inr tbl'"
    by (auto simp: kv split: sum.splits)
  from insert_row_Inr [OF t]
  have t_eq: "t = (case tbl k0 of Some old \<Rightarrow> tbl | None \<Rightarrow> tbl(k0 \<mapsto> v0))" by simp
  have step: "map_of rows ++ t = map_of ((k0, v0) # rows) ++ tbl"
    by (rule ext) (auto simp: t_eq map_add_def split: option.splits)
  have "tbl' = map_of rows ++ t" by (rule Cons.IH [OF rest])
  then show ?case unfolding kv step .
qed

lemma upsert_risk_events_origin:
  assumes "upsert_risk_events rules db0 df = (db1, r)"
    and "risk_events db1 k = Some v"
  shows "risk_events db0 k = Some v \<or> (k, v) \<in> set (build_risk_events df default_threshold)"
proof (cases r)
  case (Inl e)
  with assms show ?thesis by (simp add: upsert_risk_events_Inl)
next
  case (Inr n)
  with assms(1) obtain tbl where
    ex: "execute (empty_batch_ok rules) (risk_accepts rules) (risk_events db0)
           (build_risk_events df default_threshold) = Inr tbl"
    and db1: "db1 = db0\<lparr>risk_events := tbl\<rparr>"
    by (auto simp: upsert_risk_events_Inr)
  from ex have ins: "insert_rows (risk_accepts rules) (risk_events db0)
      (build_risk_events df default_threshold) = Inr tbl"
    by (auto simp: execute_def split: if_splits)
  from assms(2) db1 have "tbl k = Some v" by simp
  from insert_rows_origin [OF ins this] show ?thesis .
qed

lemma load_price_data_cong:
  "price_data a = price_data b \<Longrightarrow> load_price_data rules a mid = load_price_data rules b mid"
  by (simp add: load_price_data_def)

lemma main_loop_risk_origin:
  "main_loop fm rules ms st = (st', e) \<Longrightarrow> risk_events (store st') k = Some v \<Longrightarrow>
   risk_events (store st) k = Some v \<or>
   (\<exists>m df. m \<in> set ms \<and> load_price_data rules (store st) (fst m) = Inr (Some df) \<and>
            (k, v) \<in> set (build_risk_events (build_features fm df) default_threshold))"
proof (induction ms arbitrary: st)
  case Nil
  then show ?case by simp
next
  case (Cons m ms)
  obtain mid metal_name where m: "m = (mid, metal_name)" by (cases m)
  let ?st1 = "print (AssetHeader metal_name mid) st"
  let ?new = "\<lambda>ms db. \<exists>m df. m \<in> set ms \<and> load_price_data rules db (fst m) = Inr (Some df) \<and>
            (k, v) \<in> set (build_risk_events (build_features fm df) default_threshold)"
  have s1: "store ?st1 = store st" by (simp add: print_def)
  have later: "?new (m # ms) (store st)" if "?new ms d" "price_data d = price_data (store st)" for d
  proof -
    from that(1) obtain m' df' where "m' \<in> set ms"
      "load_price_data rules d (fst m') = Inr (Some df')"
      "(k, v) \<in> set (build_risk_events (build_features fm df') default_threshold)"
      by blast
    moreover have "load_price_data rules d (fst m') = load_price_data rules (store st) (fst m')"
      by (rule load_price_data_cong) (rule that(2))
    ultimately show ?thesis by (intro exI [of _ m'] exI [of _ df']) simp
  qed
  show ?case
  proof (cases "load_price_data rules (store ?st1) mid")
    case (Inl err)
    with Cons.prems(1) have "st' = ?st1" by (simp add: m Let_def)
    with Cons.prems(2) s1 show ?thesis by simp
  next
    case loaded: (Inr loaded)
    show ?thesis
    proof (cases loaded)
      case None
      with Cons.prems(1) loaded
      have run: "main_loop fm rules ms (print NoPriceData ?st1) = (st', e)"
        by (simp add: m Let_def)
      from Cons.IH [OF run Cons.prems(2)]
      have "risk_events (store st) k = Some v \<or> ?new ms (store st)"
        by (simp add: print_def)
      with later [of "store st"] show ?thesis by blast
    next
      case (Some df)
      let ?df = "build_features fm df"
      have here: "?new (m # ms) (store st)"
        if "(k, v) \<in> set (build_risk_events ?df default_threshold)"
        using that loaded Some s1 by (intro exI [of _ m] exI [of _ df]) (simp add: m)
      obtain db2 r2 where u1: "upsert_technical_features rules (store ?st1) ?df = (db2, r2)"
        by (cases "upsert_technical_features rules (store ?st1) ?df")
      have o1: "risk_events db2 = risk_events (store st)" "price_data db2 = price_data (store st)"
        using upsert_technical_features_other [OF u1] s1 by simp_all
      show ?thesis
      proof (cases r2)
        case (Inl err)
        with Cons.prems(1) loaded Some u1 have "st' = ?st1\<lparr>store := db2\<rparr>"
          by (simp add: m Let_def)
        with Cons.prems(2) o1 show ?thesis by simp
      next
        case (Inr n_feat)
        obtain db3 r3 where u2: "upsert_risk_events rules db2 ?df = (db3, r3)"
          by (cases "upsert_risk_events rules db2 ?df")
        have o3: "risk_events (store st) k = Some v \<or> ?new (m # ms) (store st)"
          if "risk_events db3 k = Some v"
          using upsert_risk_events_origin [OF u2 that] here unfolding o1 by blast
        have p3: "price_data db3 = price_data (store st)"
          using upsert_risk_events_other [OF u2] o1 by simp
        show ?thesis
        proof (cases r3)
          case (Inl err)
          with Cons.prems(1) loaded Some u1 u2 Inr have "st' = ?st1\<lparr>store := db3\<rparr>"
            by (simp add: m Let_def)
          with Cons.prems(2) o3 show ?thesis by simp
        next
          case r3: (Inr n_risk)
          let ?st2 = "print (InsertedRisk n_risk) (print (InsertedFeatures n_feat)
                        (?st1\<lparr>store := db3, total_feat := total_feat ?st1 + n_feat,
                               total_risk := total_risk ?st1 + n_risk\<rparr>))"
          from Cons.prems(1) loaded Some u1 u2 Inr r3
          have run: "main_loop fm rules ms ?st2 = (st', e)"
            by (simp add: m Let_def)
          have st2: "store ?st2 = db3" by (simp add: print_def)
          have "risk_events (store ?st2) k = Some v \<or> ?new ms (store ?st2)"
            using Cons.IH [OF run Cons.prems(2)] .
          then consider "risk_events db3 k = Some v" | "?new ms db3" unfolding st2 by blast
          then show ?thesis
          proof cases
            case 1
            from o3 [OF this] show ?thesis .
          next
            case 2
            from later [OF this p3] show ?thesis by blast
          qed
        qed
      qed
    qed
  qed
qed

lemma main_risk_origin:
  assumes "main fm rules db0 = (st, e)" and "risk_events (store st) k = Some v"
  shows "risk_events db0 k = Some v \<or>
   (\<exists>m df. m \<in> set (metals db0) \<and> load_price_data rules db0 (fst m) = Inr (Some df) \<and>
            (k, v) \<in> set (build_risk_events (build_features fm df) default_threshold))"
proof -
  let ?start = "\<lparr>store = db0, total_feat = 0, total_risk = 0, printed = [Banner]\<rparr>"
  obtain st1 e1 where loop: "main_loop fm rules (sort_key fst (metals db0)) ?start = (st1, e1)"
    by (cases "main_loop fm rules (sort_key fst (metals db0)) ?start")
  have "store st = store st1"
    using assms(1) loop by (cases e1) (auto simp: main_def print_def)
  with assms(2) main_loop_risk_origin [OF loop, of k v] show ?thesis by simp
qed

lemma short_series_no_features:
  assumes "length df < 50"
  shows "feature_batch (build_features fm df) = []"
proof -
  have "\<not> no_absent (ind r)" if "r \<in> set (build_features fm df)" for r
  proof -
    from that obtain i where i: "i < length df" and r: "r = build_features fm df ! i"
      by (auto simp: in_set_conv_nth build_features_length)
    have "sma_50 (ind (build_features fm df ! i)) = of_opt (rolling 50 mean (closes df) ! i)"
      using i by (simp add: build_features_def Let_def split_def)
    also have "\<dots> = NaN" using i assms by (simp add: nth_rolling length_closes)
    finally show ?thesis by (simp add: r no_absent_def)
  qed
  then show ?thesis by (simp add: feature_batch_def)
qed

lemma load_small_db:
  "price_data d = spec_example \<Longrightarrow> load_price_data accept_all d 1 = Inr (Some spec_example)"
  "price_data d = spec_example \<Longrightarrow> load_price_data accept_all d 2 = Inr None"
  by (simp_all add: load_price_data_def spec_example_def flat_point_def accept_all_def)

lemma small_upsert_features:
  "technical_features d = Map.empty \<Longrightarrow>
   upsert_technical_features accept_all d (build_features fm spec_example) = (d, Inr 0)"
proof -
  assume e: "technical_features d = Map.empty"
  have "length spec_example < 50" by (simp add: spec_example_def)
  from short_series_no_features [OF this] e show ?thesis
    by (simp add: upsert_technical_features_def begin_transaction_def execute_def accept_all_def)
qed

lemma small_upsert_risk:
  "risk_events d = Map.empty \<Longrightarrow>
   upsert_risk_events accept_all d (build_features fm spec_example) =
     (d\<lparr>risk_events := spec_example_risk\<rparr>, Inr 2)"
  by (simp add: upsert_risk_events_def spec_example_risk_batch begin_transaction_def
      execute_def insert_row_def accept_all_def spec_example_risk_def)

lemma small_main:
  "main fm accept_all small_db =
     (\<lparr>store = small_db\<lparr>risk_events := spec_example_risk\<rparr>, total_feat = 0, total_risk = 2,
       printed = [Banner, AssetHeader ''Gold'' 1, InsertedFeatures 0, InsertedRisk 2,
                  AssetHeader ''Silver'' 2, NoPriceData, Done, TotalFeatures 0, TotalRisk 2]\<rparr>,
      None)"
proof -
  have m: "sort_key fst (metals small_db) = [(1, ''Gold''), (2, ''Silver'')]"
    by (simp add: small_db_def)
  have p: "price_data small_db = spec_example" and t: "technical_features small_db = Map.empty"
    and r: "risk_events small_db = Map.empty"
    by (simp_all add: small_db_def)
  show ?thesis
    unfolding main_def m
    by (simp add: Let_def print_def load_small_db p small_upsert_features t small_upsert_risk r)
qed

lemma main_loop_skip:
  assumes "load_price_data rules (store st) mid = Inr None"
  shows "main_loop fm rules ((mid, metal_name) # rest) st =
         main_loop fm rules rest (print NoPriceData (print (AssetHeader metal_name mid) st))"
  using assms by (simp add: Let_def print_def)

lemma main_loop_raise:
  assumes "load_price_data rules (store st) mid = Inl err"
  shows "main_loop fm rules ((mid, metal_name) # rest) st =
         (print (AssetHeader metal_name mid) st, Some err)"
  using assms by (simp add: Let_def print_def)

lemma main_loop_all_missing:
  assumes "\<forall>m \<in> set ms. load_price_data rules (store st) (fst m) = Inr None"
  shows "main_loop fm rules ms st =
           (st\<lparr>printed := printed st @
                  concat (map (\<lambda>m. [AssetHeader (snd m) (fst m), NoPriceData]) ms)\<rparr>, None)"
  using assms
proof (induction ms arbitrary: st)
  case Nil
  then show ?case by simp
next
  case (Cons m ms)
  obtain mid metal_name where m: "m = (mid, metal_name)" by (cases m)
  let ?st2 = "print NoPriceData (print (AssetHeader metal_name mid) st)"
  from Cons.prems have none: "load_price_data rules (store st) mid = Inr None" by (simp add: m)
  have "\<forall>m \<in> set ms. load_price_data rules (store ?st2) (fst m) = Inr None"
    using Cons.prems by (simp add: print_def)
  from Cons.IH [OF this] show ?case
    unfolding m main_loop_skip [OF none] by (simp add: print_def)
qed

lemma main_prints_totals:
  assumes "main fm rules db0 = (st, None)"
  shows "\<exists>ls. printed st = ls @ [Done, TotalFeatures (total_feat st), TotalRisk (total_risk st)]"
proof -
  let ?start = "\<lparr>store = db0, total_feat = 0, total_risk = 0, printed = [Banner]\<rparr>"
  obtain st1 e1 where loop: "main_loop fm rules (sort_key fst (metals db0)) ?start = (st1, e1)"
    by (cases "main_loop fm rules (sort_key fst (metals db0)) ?start")
  with assms have "st = print (TotalRisk (total_risk st1))
      (print (TotalFeatures (total_feat st1)) (print Done st1))"
    by (cases e1) (auto simp: main_def)
  then show ?thesis by (simp add: print_def)
qed

lemma build_features_volume_change:
  "i < length df \<Longrightarrow>
   volume_change (ind (build_features fm df ! i)) = pct_change fm (map volume df) ! i"
  by (simp add: build_features_def Let_def split_def)

lemma build_features_high_low_ratio:
  "i < length df \<Longrightarrow>
   high_low_ratio (ind (build_features fm df ! i)) =
     (if low (df ! i) > 0 then Fin (high (df ! i) / low (df ! i)) else NaN)"
  by (simp add: build_features_def Let_def split_def)

lemma sequence_map_Some: "sequence (map Some ys) = Some ys"
  by (induction ys) simp_all

lemma rolling_Some:
  assumes "i < length cs" and "k \<le> i + 1"
  shows "rolling k f (map Some cs) ! i = Some (f (take k (drop (i + 1 - k) cs)))"
proof -
  have i: "i < length (map Some cs)" using assms(1) by simp
  have w: "take k (drop (i + 1 - k) (map Some cs)) = map Some (take k (drop (i + 1 - k) cs))"
    by (simp add: take_map drop_map)
  show ?thesis
    unfolding nth_rolling [OF i] w sequence_map_Some using assms(2) by simp
qed

lemma sum_list_pos_real:
  fixes ys :: "real list"
  assumes "ys \<noteq> []" and "\<And>y. y \<in> set ys \<Longrightarrow> 0 < y"
  shows "0 < sum_list ys"
  using assms
proof (induction ys)
  case Nil
  then show ?case by simp
next
  case (Cons y ys)
  have "0 \<le> sum_list ys" by (rule sum_list_nonneg) (simp add: Cons.prems(2) less_imp_le)
  moreover have "0 < y" by (simp add: Cons.prems(2))
  ultimately show ?case by simp
qed

lemma mean_pos:
  assumes "ys \<noteq> []" and "\<And>y. y \<in> set ys \<Longrightarrow> 0 < y"
  shows "0 < mean ys"
  using sum_list_pos_real [OF assms] assms(1) by (simp add: mean_def)

lemma build_features_ind:
  "i < length df \<Longrightarrow>
   ind (build_features fm df ! i) =
     \<lparr>daily_return = pct_change fm (closes df) ! i,
      log_return = np_log (fl_div (of_opt (closes df ! i)) (of_opt (shift (closes df) ! i))),
      sma_5 = of_opt (rolling 5 mean (closes df) ! i),
      sma_10 = of_opt (rolling 10 mean (closes df) ! i),
      sma_20 = of_opt (rolling 20 mean (closes df) ! i),
      sma_50 = of_opt (rolling 50 mean (closes df) ! i),
      ema_12 = of_opt (ewm_mean 12 (closes df) ! i),
      ema_26 = of_opt (ewm_mean 26 (closes df) ! i),
      bollinger_upper = of_opt (fst (calculate_bollinger (closes df) 20 2) ! i),
      bollinger_middle = of_opt (fst (snd (calculate_bollinger (closes df) 20 2)) ! i),
      bollinger_lower = of_opt (fst (snd (snd (calculate_bollinger (closes df) 20 2))) ! i),
      bollinger_width = snd (snd (snd (calculate_bollinger (closes df) 20 2))) ! i,
      rsi_14 = calculate_rsi (closes df) 14 ! i,
      macd = of_opt (fst (calculate_macd (closes df) 12 26 9) ! i),
      macd_signal = of_opt (fst (snd (calculate_macd (closes df) 12 26 9)) ! i),
      macd_histogram = of_opt (snd (snd (calculate_macd (closes df) 12 26 9)) ! i),
      high_low_range = Fin (high (df ! i) - low (df ! i)),
      high_low_ratio = (if low (df ! i) > 0 then Fin (high (df ! i) / low (df ! i)) else NaN),
      volume_change = pct_change fm (map volume df) ! i,
      volume_sma_20 = of_opt (rolling 20 mean (map volume df) ! i)\<rparr>"
  by (simp add: build_features_def Let_def split_def length_closes length_shift)

lemma bollinger_defined:
  assumes i: "i < length cs" and w: "19 \<le> i" and pos: "\<And>c. c \<in> set cs \<Longrightarrow> 0 < c"
  shows "\<exists>u. fst (calculate_bollinger (map Some cs) 20 2) ! i = Some u"
    and "\<exists>m. fst (snd (calculate_bollinger (map Some cs) 20 2)) ! i = Some m"
    and "\<exists>l. fst (snd (snd (calculate_bollinger (map Some cs) 20 2))) ! i = Some l"
    and "\<exists>x. snd (snd (snd (calculate_bollinger (map Some cs) 20 2))) ! i = Fin x"
proof -
  let ?w = "take 20 (drop (i + 1 - 20) cs)"
  have k: "20 \<le> i + 1" using w by simp
  have mid: "rolling 20 mean (map Some cs) ! i = Some (mean ?w)"
    and sd: "rolling 20 std (map Some cs) ! i = Some (std ?w)"
    using rolling_Some [OF i k] by simp_all
  have ne: "?w \<noteq> []" using i w by simp
  have "0 < c" if "c \<in> set ?w" for c
    using that pos by (meson in_set_dropD in_set_takeD)
  with ne have m: "0 < mean ?w" by (rule mean_pos)
  have il: "i < length (map Some cs)" using i by simp
  show "\<exists>u. fst (calculate_bollinger (map Some cs) 20 2) ! i = Some u"
    using il by (simp add: calculate_bollinger_def Let_def length_rolling mid sd)
  show "\<exists>m. fst (snd (calculate_bollinger (map Some cs) 20 2)) ! i = Some m"
    using il by (simp add: calculate_bollinger_def Let_def length_rolling mid sd)
  show "\<exists>l. fst (snd (snd (calculate_bollinger (map Some cs) 20 2))) ! i = Some l"
    using il by (simp add: calculate_bollinger_def Let_def length_rolling mid sd)
  show "\<exists>x. snd (snd (snd (calculate_bollinger (map Some cs) 20 2))) ! i = Fin x"
    using il m by (simp add: calculate_bollinger_def Let_def length_rolling mid sd)
qed

lemma macd_defined:
  assumes i: "i < length cs"
  shows "\<exists>m. fst (calculate_macd (map Some cs) f s g) ! i = Some m"
    and "\<exists>m. fst (snd (calculate_macd (map Some cs) f s g)) ! i = Some m"
    and "\<exists>m. snd (snd (calculate_macd (map Some cs) f s g)) ! i = Some m"
proof -
  obtain ms where ms: "map2 opt_sub (ewm_mean f (map Some cs)) (ewm_mean s (map Some cs)) = map Some ms"
    and lm: "length ms = length cs"
    using macd_all_Some by blast
  obtain ss where ss: "ewm_mean g (map Some ms) = map Some ss" and ls: "length ss = length ms"
    using ewm_mean_all_Some by blast
  have h: "map2 opt_sub (map Some ms) (map Some ss) = map Some (map2 (-) ms ss)"
    by (simp add: zip_map_map split_def)
  show "\<exists>m. fst (calculate_macd (map Some cs) f s g) ! i = Some m"
    using i lm by (simp add: calculate_macd_def Let_def ms)
  show "\<exists>m. fst (snd (calculate_macd (map Some cs) f s g)) ! i = Some m"
    using i lm ls by (simp add: calculate_macd_def Let_def ms ss)
  show "\<exists>m. snd (snd (calculate_macd (map Some cs) f s g)) ! i = Some m"
    using i lm ls unfolding calculate_macd_def Let_def ms ss h by simp
qed

lemma complete_row:
  assumes i: "i < length df" and w: "49 \<le> i"
    and pos: "\<And>p. p \<in> set df \<Longrightarrow> 0 < close p \<and> 0 < low p"
    and vol: "map volume df = map Some vs" and vpos: "\<And>v. v \<in> set vs \<Longrightarrow> 0 < v"
    and rsi: "\<not> is_nan (calculate_rsi (closes df) 14 ! i)"
  shows "no_absent (ind (build_features fm df ! i))"
proof -
  let ?cs = "map close df"
  have c: "closes df = map Some ?cs" by (rule closes_map)
  have ic: "i < length ?cs" using i by simp
  have cpos: "0 < x" if "x \<in> set ?cs" for x using that pos by auto
  have allpos: "\<forall>p \<in> set df. 0 < close p" using pos by blast
  have i0: "i \<noteq> 0" using w by simp
  have lv: "length vs = length df" using vol by (metis length_map)
  have iv: "i < length vs" using i lv by simp
  have dr: "\<not> is_nan (pct_change fm (closes df) ! i)"
    using daily_return_positive [OF allpos i, of fm] i0
    by (simp add: build_features_daily_return [OF i])
  have lr: "\<not> is_nan (np_log (fl_div (of_opt (closes df ! i)) (of_opt (shift (closes df) ! i))))"
  proof -
    have a: "0 < close (df ! i)" using pos i by simp
    have "df ! (i - 1) \<in> set df" using i by simp
    then have b: "0 < close (df ! (i - 1))" using pos by blast
    from a b have "0 < close (df ! i) / close (df ! (i - 1))" by simp
    with b i i0 show ?thesis by (simp add: closes_def nth_shift)
  qed
  have sma: "\<not> is_nan (of_opt (rolling k mean (closes df) ! i))" if "k \<le> 50" for k
  proof -
    from that w have "k \<le> i + 1" by simp
    from rolling_Some [OF ic this] show ?thesis by (simp add: c del: map_map)
  qed
  have ema: "\<not> is_nan (of_opt (ewm_mean k (closes df) ! i))" for k
    using ewm_closes_recurrence [OF i, of k] by auto
  have w19: "19 \<le> i" using w by simp
  have boll: "\<not> is_nan (of_opt (fst (calculate_bollinger (closes df) 20 2) ! i))"
      "\<not> is_nan (of_opt (fst (snd (calculate_bollinger (closes df) 20 2)) ! i))"
      "\<not> is_nan (of_opt (fst (snd (snd (calculate_bollinger (closes df) 20 2))) ! i))"
      "\<not> is_nan (snd (snd (snd (calculate_bollinger (closes df) 20 2))) ! i)"
    using bollinger_defined [OF ic w19 cpos] unfolding c by auto
  have mc: "\<not> is_nan (of_opt (fst (calculate_macd (closes df) 12 26 9) ! i))"
      "\<not> is_nan (of_opt (fst (snd (calculate_macd (closes df) 12 26 9)) ! i))"
      "\<not> is_nan (of_opt (snd (snd (calculate_macd (closes df) 12 26 9)) ! i))"
    using macd_defined [OF ic, of 12 26 9] unfolding c by auto
  have hl: "0 < low (df ! i)" using pos i by simp
  have vc: "\<not> is_nan (pct_change fm (map volume df) ! i)"
  proof -
    have "vs ! (i - 1) \<in> set vs" using iv by simp
    then have "vs ! (i - 1) \<noteq> 0" using vpos by fastforce
    then show ?thesis unfolding vol pct_change_Some [OF iv] using i0 by (simp add: fl_sub_def)
  qed
  have vs20: "\<not> is_nan (of_opt (rolling 20 mean (map volume df) ! i))"
  proof -
    from w have "20 \<le> i + 1" by simp
    from rolling_Some [OF iv this] show ?thesis unfolding vol by simp
  qed
  show ?thesis
    unfolding no_absent_def build_features_ind [OF i]
    using dr lr sma [of 5] sma [of 10] sma [of 20] sma [of 50] ema [of 12] ema [of 26]
      boll rsi mc hl vc vs20
    by simp
qed

lemma short_row_incomplete:
  assumes "i < length df" and "i < 49"
  shows "\<not> no_absent (ind (build_features fm df ! i))"
proof -
  have "rolling 50 mean (closes df) ! i = None"
    using assms by (simp add: nth_rolling length_closes)
  then show ?thesis by (simp add: no_absent_def build_features_ind [OF assms(1)])
qed

lemma mean_replicate: "0 < k \<Longrightarrow> mean (replicate k c) = c"
  by (simp add: mean_def sum_list_replicate)

lemma rolling_mean_const:
  assumes i: "i < length xs" and k: "k \<le> i + 1" "0 < k"
    and const: "\<And>j. i + 1 - k \<le> j \<Longrightarrow> j \<le> i \<Longrightarrow> xs ! j = Some c"
  shows "rolling k mean xs ! i = Some c"
proof -
  have w: "take k (drop (i + 1 - k) xs) = replicate k (Some c)"
  proof (rule nth_equalityI)
    show "length (take k (drop (i + 1 - k) xs)) = length (replicate k (Some c))"
      using i k by simp
    fix n assume "n < length (take k (drop (i + 1 - k) xs))"
    then have n: "n < k" by simp
    then have "xs ! (i + 1 - k + n) = Some c" using k by (intro const) auto
    with n i k show "take k (drop (i + 1 - k) xs) ! n = replicate k (Some c) ! n" by simp
  qed
  show ?thesis
    unfolding nth_rolling [OF i] w using k
    by (simp add: sequence_replicate mean_replicate)
qed

lemma length_rising: "length (rising_series m) = 50"
  by (simp add: rising_series_def)

lemma nth_rising: "i < 50 \<Longrightarrow> rising_series m ! i = rising_point m i"
  by (simp add: rising_series_def)

lemma set_rising: "p \<in> set (rising_series m) \<Longrightarrow> \<exists>d. p = rising_point m d"
  by (auto simp: rising_series_def)

lemma rising_rsi: "calculate_rsi (closes (rising_series m)) 14 ! 49 = Fin 100"
proof -
  let ?c = "closes (rising_series m)"
  have len: "length ?c = 50" by (simp add: length_closes length_rising)
  have d: "diff ?c ! j = Some 1" if "36 \<le> j" "j \<le> 49" for j
  proof -
    from that have j: "j < length ?c" "j \<noteq> 0" "j < 50" "j - 1 < 50" by (simp_all add: len)
    have "real j - real (j - 1) = 1" using that by (simp add: of_nat_diff)
    then show ?thesis
      using j by (simp add: nth_diff closes_def nth_rising rising_point_def length_rising)
  qed
  have g: "rsi_gain ?c 14 ! 49 = Some 1"
    unfolding rsi_gain_def
  proof (rule rolling_mean_const)
    show "49 < length (series_where (\<lambda>d. d > 0) 0 (diff ?c))"
      by (simp add: series_where_def length_diff len)
    show "14 \<le> 49 + (1::nat)" "0 < (14::nat)" by simp_all
    fix j :: nat assume j: "49 + 1 - 14 \<le> j" "j \<le> 49"
    then have "36 \<le> j" by simp
    from d [OF this j(2)] j(2)
    show "series_where (\<lambda>d. d > 0) 0 (diff ?c) ! j = Some 1"
      by (simp add: series_where_def length_diff len)
  qed
  have l: "rsi_loss ?c 14 ! 49 = Some 0"
    unfolding rsi_loss_def
  proof (rule rolling_mean_const)
    show "49 < length (map (map_option uminus) (series_where (\<lambda>d. d < 0) 0 (diff ?c)))"
      by (simp add: series_where_def length_diff len)
    show "14 \<le> 49 + (1::nat)" "0 < (14::nat)" by simp_all
    fix j :: nat assume j: "49 + 1 - 14 \<le> j" "j \<le> 49"
    then have "36 \<le> j" by simp
    from d [OF this j(2)] j(2)
    show "map (map_option uminus) (series_where (\<lambda>d. d < 0) 0 (diff ?c)) ! j = Some 0"
      by (simp add: series_where_def length_diff len)
  qed
  have "49 < length ?c" by (simp add: len)
  from calculate_rsi_saturates [OF this l g] show ?thesis by simp
qed

lemma rising_last_complete: "no_absent (ind (build_features fm (rising_series m) ! 49))"
proof (rule complete_row)
  show "49 < length (rising_series m)" by (simp add: length_rising)
  show "49 \<le> (49::nat)" by simp
  show "0 < close p \<and> 0 < low p" if "p \<in> set (rising_series m)" for p
    using set_rising [OF that] by (auto simp: rising_point_def)
  show "map volume (rising_series m) = map Some (replicate 50 1000)"
    by (simp add: rising_series_def rising_point_def comp_def map_replicate_const)
  show "0 < v" if "v \<in> set (replicate 50 (1000::real))" for v using that by simp
  show "\<not> is_nan (calculate_rsi (closes (rising_series m)) 14 ! 49)"
    by (simp add: rising_rsi)
qed

lemma rising_feature_batch:
  "feature_batch (build_features fm (rising_series m)) =
     [((m, 49), ind (build_features fm (rising_series m) ! 49))]"
proof -
  let ?F = "build_features fm (rising_series m)"
  have len: "length ?F = 50" by (simp add: build_features_length length_rising)
  then have split: "?F = take 49 ?F @ [?F ! 49]"
    by (metis Suc_eq_plus1 add.commute lessI numeral_plus_one semiring_norm(5) semiring_norm(8)
        take_Suc_conv_app_nth take_all order_refl eval_nat_numeral(3))
  have early: "\<not> no_absent (ind r)" if "r \<in> set (take 49 ?F)" for r
  proof -
    from that len obtain i where "i < 49" "r = ?F ! i"
      by (auto simp: in_set_conv_nth)
    then show ?thesis using short_row_incomplete [of i "rising_series m" fm]
      by (simp add: length_rising)
  qed
  have key: "row_key (?F ! 49) = (m, 49)"
    by (simp add: row_key_def build_features_point length_rising nth_rising rising_point_def)
  have "feature_batch ?F = feature_batch (take 49 ?F) @ feature_batch [?F ! 49]"
    by (subst split) (simp add: feature_batch_def)
  moreover have "feature_batch (take 49 ?F) = []"
    using early by (simp add: feature_batch_def)
  moreover have "feature_batch [?F ! 49] = [((m, 49), ind (?F ! 49))]"
    using rising_last_complete [of fm m] key by (simp add: feature_batch_def)
  ultimately show ?thesis by simp
qed

lemma insert_rows_accepting:
  assumes "\<And>k v. (k, v) \<in> set rows \<Longrightarrow> accepts k v"
  shows "insert_rows accepts tbl rows = Inr (map_of rows ++ tbl)"
proof -
  have "\<exists>t. insert_rows accepts tbl rows = Inr t"
    using assms
  proof (induction rows arbitrary: tbl)
    case Nil
    then show ?case by simp
  next
    case (Cons kv rows)
    obtain k v where kv: "kv = (k, v)" by (cases kv)
    have "accepts k v" using Cons.prems [of k v] by (simp add: kv)
    then obtain t where t: "insert_row accepts tbl (k, v) = Inr t"
      by (cases "tbl k") (auto simp: insert_row_def)
    have "\<exists>t'. insert_rows accepts t rows = Inr t'"
    proof (rule Cons.IH)
      fix k' v' assume "(k', v') \<in> set rows"
      then have "(k', v') \<in> set (kv # rows)" by simp
      then show "accepts k' v'" by (rule Cons.prems)
    qed
    with t show ?case by (simp add: kv)
  qed
  then obtain t where t: "insert_rows accepts tbl rows = Inr t" by blast
  from insert_rows_map_of [OF t] t show ?thesis by simp
qed

lemma insert_rows_refusing:
  assumes "(k, v) \<in> set rows" and "\<not> accepts k v"
  shows "insert_rows accepts tbl rows = Inl PersistenceFailure"
  using assms(1)
proof (induction rows arbitrary: tbl)
  case Nil
  then show ?case by simp
next
  case (Cons kv rows)
  obtain k0 v0 where kv: "kv = (k0, v0)" by (cases kv)
  show ?case
  proof (cases "accepts k0 v0")
    case False
    then show ?thesis by (simp add: kv insert_row_def)
  next
    case True
    then obtain t where t: "insert_row accepts tbl (k0, v0) = Inr t"
      by (cases "tbl k0") (auto simp: insert_row_def)
    from True assms(2) Cons.prems have "(k, v) \<in> set rows" by (auto simp: kv)
    from Cons.IH [OF this, of t] t show ?thesis by (simp add: kv)
  qed
qed

lemma rising_risk_keys:
  "map fst (build_risk_events (build_features fm (rising_series m)) thr) =
     map (\<lambda>i. (m, i)) [1..<50]"
proof -
  have pos: "\<forall>p \<in> set (rising_series m). 0 < close p"
    using set_rising by (fastforce simp: rising_point_def)
  have "map (\<lambda>i. (metal_id (rising_series m ! i), date (rising_series m ! i))) [1..<50] =
      map (\<lambda>i. (m, i)) [1..<50]"
    by (rule map_cong) (simp_all add: nth_rising rising_point_def)
  then show ?thesis
    unfolding build_risk_events_positive [OF pos] length_rising by (simp add: comp_def)
qed

lemma rising_risk_key_set:
  "(k, v) \<in> set (build_risk_events (build_features fm (rising_series m)) thr) \<Longrightarrow> fst k = m"
proof -
  assume "(k, v) \<in> set (build_risk_events (build_features fm (rising_series m)) thr)"
  then have "k \<in> set (map fst (build_risk_events (build_features fm (rising_series m)) thr))"
    by force
  then show ?thesis unfolding rising_risk_keys by auto
qed

lemma rising_risk_has_last:
  "(m, 49) \<in> fst ` set (build_risk_events (build_features fm (rising_series m)) thr)"
proof -
  have "(m, 49) \<in> set (map (\<lambda>i. (m, i)) [1..<50])" by simp
  then show ?thesis unfolding rising_risk_keys [symmetric, of m fm thr] by simp
qed

lemma rising_risk_length:
  "length (build_risk_events (build_features fm (rising_series m)) thr) = 49"
  using arg_cong [OF rising_risk_keys [of fm m thr], of length] by simp

lemma load_rising:
  assumes "price_data d = rising_series 1 @ rising_series 2" and "\<And>m. \<not> read_fails rules m"
  shows "load_price_data rules d 1 = Inr (Some (rising_series 1))"
    and "load_price_data rules d 2 = Inr (Some (rising_series 2))"
proof -
  have f: "filter (\<lambda>p. metal_id p = a) (rising_series b) = (if a = b then rising_series b else [])"
    for a b
    by (simp add: rising_series_def filter_map comp_def rising_point_def)
  have "map date (rising_series b) = [0..<50]" for b
    by (simp add: rising_series_def comp_def rising_point_def)
  then have "sorted (map date (rising_series b))" for b by simp
  then have s: "sort_key date (rising_series b) = rising_series b" for b
    by (rule sort_key_id_if_sorted)
  have ne: "rising_series b \<noteq> []" for b by (simp add: rising_series_def upt_rec)
  show "load_price_data rules d 1 = Inr (Some (rising_series 1))"
    by (simp add: load_price_data_def assms f s ne)
  show "load_price_data rules d 2 = Inr (Some (rising_series 2))"
    by (simp add: load_price_data_def assms f s ne)
qed

lemma refuse_silver_risk_reads: "\<not> read_fails refuse_silver_risk m"
  by (simp add: refuse_silver_risk_def)

lemma rising_upsert_features:
  assumes "technical_features d (m, 49) = None"
  shows "upsert_technical_features refuse_silver_risk d (build_features fm (rising_series m)) =
           (d\<lparr>technical_features :=
                (technical_features d)((m, 49) \<mapsto> ind (build_features fm (rising_series m) ! 49))\<rparr>,
            Inr 1)"
  using assms
  by (simp add: upsert_technical_features_def rising_feature_batch begin_transaction_def
      execute_def insert_row_def refuse_silver_risk_def)

lemma gold_upsert_risk:
  "upsert_risk_events refuse_silver_risk d (build_features fm (rising_series 1)) =
     (d\<lparr>risk_events :=
          map_of (build_risk_events (build_features fm (rising_series 1)) default_threshold)
            ++ risk_events d\<rparr>, Inr 49)"
proof -
  let ?B = "build_risk_events (build_features fm (rising_series 1)) default_threshold"
  have "insert_rows (risk_accepts refuse_silver_risk) (risk_events d) ?B =
      Inr (map_of ?B ++ risk_events d)"
    by (rule insert_rows_accepting) (simp add: refuse_silver_risk_def rising_risk_key_set)
  then show ?thesis
    by (simp add: upsert_risk_events_def begin_transaction_def execute_def rising_risk_length
        refuse_silver_risk_def)
qed

lemma silver_upsert_risk:
  "upsert_risk_events refuse_silver_risk d (build_features fm (rising_series 2)) =
     (d, Inl PersistenceFailure)"
proof -
  let ?B = "build_risk_events (build_features fm (rising_series 2)) default_threshold"
  from rising_risk_has_last [of 2 fm default_threshold]
  obtain v where v: "((2, 49), v) \<in> set ?B" by force
  have "insert_rows (risk_accepts refuse_silver_risk) (risk_events d) ?B = Inl PersistenceFailure"
    by (rule insert_rows_refusing [OF v]) (simp add: refuse_silver_risk_def)
  moreover have "?B \<noteq> []" using v by auto
  ultimately show ?thesis
    by (simp add: upsert_risk_events_def begin_transaction_def execute_def)
qed

lemma two_metals_run:
  "main fm refuse_silver_risk two_metals_db = (two_metals_final fm, Some PersistenceFailure)"
proof -
  have m: "sort_key fst (metals two_metals_db) = [(1, ''Gold''), (2, ''Silver'')]"
    by (simp add: two_metals_db_def)
  have p: "price_data two_metals_db = rising_series 1 @ rising_series 2"
    and t: "technical_features two_metals_db = Map.empty"
    and r: "risk_events two_metals_db = Map.empty"
    by (simp_all add: two_metals_db_def)
  show ?thesis
    unfolding main_def m two_metals_final_def
    by (simp add: Let_def print_def load_rising p refuse_silver_risk_reads
        rising_upsert_features t gold_upsert_risk silver_upsert_risk r)
qed

lemma gold_risk_row:
  "map_of (build_risk_events (build_features fm (rising_series 1)) thr) (1, 49) \<noteq> None"
  using rising_risk_has_last [of 1 fm thr] by (simp add: map_of_eq_None_iff)

lemma gold_risk_no_silver:
  "map_of (build_risk_events (build_features fm (rising_series 1)) thr) (2, 49) = None"
proof -
  have "(2, 49) \<notin> fst ` set (build_risk_events (build_features fm (rising_series 1)) thr)"
    using rising_risk_key_set [of "(2, 49)" _ fm 1 thr] by force
  then show ?thesis by (simp add: map_of_eq_None_iff)
qed

lemma upsert_technical_features_keeps:
  assumes "upsert_technical_features rules db0 df = (db1, r)"
    and "technical_features db0 k = Some v"
  shows "technical_features db1 k = Some v"
proof (cases r)
  case (Inl e)
  with assms show ?thesis by (simp add: upsert_technical_features_Inl)
next
  case (Inr n)
  with assms(1) obtain tbl where
    ex: "execute (empty_batch_ok rules) (feat_accepts rules) (technical_features db0) (feature_batch df) = Inr tbl"
    and db1: "db1 = db0\<lparr>technical_features := tbl\<rparr>"
    by (auto simp: upsert_technical_features_Inr)
  from ex have "insert_rows (feat_accepts rules) (technical_features db0) (feature_batch df) = Inr tbl"
    by (auto simp: execute_def split: if_splits)
  from insert_rows_keeps [OF this assms(2)] db1 show ?thesis by simp
qed

lemma upsert_risk_events_keeps:
  assumes "upsert_risk_events rules db0 df = (db1, r)"
    and "risk_events db0 k = Some v"
  shows "risk_events db1 k = Some v"
proof (cases r)
  case (Inl e)
  with assms show ?thesis by (simp add: upsert_risk_events_Inl)
next
  case (Inr n)
  with assms(1) obtain tbl where
    ex: "execute (empty_batch_ok rules) (risk_accepts rules) (risk_events db0)
           (build_risk_events df default_threshold) = Inr tbl"
    and db1: "db1 = db0\<lparr>risk_events := tbl\<rparr>"
    by (auto simp: upsert_risk_events_Inr)
  from ex have "insert_rows (risk_accepts rules) (risk_events db0)
      (build_risk_events df default_threshold) = Inr tbl"
    by (auto simp: execute_def split: if_splits)
  from insert_rows_keeps [OF this assms(2)] db1 show ?thesis by simp
qed

lemma main_loop_keeps:
  "main_loop fm rules ms st = (st', e) \<Longrightarrow>
   (technical_features (store st) k = Some v \<longrightarrow> technical_features (store st') k = Some v) \<and>
   (risk_events (store st) k' = Some v' \<longrightarrow> risk_events (store st') k' = Some v')"
proof (induction ms arbitrary: st)
  case Nil
  then show ?case by simp
next
  case (Cons m ms)
  obtain mid metal_name where m: "m = (mid, metal_name)" by (cases m)
  let ?st1 = "print (AssetHeader metal_name mid) st"
  have s1: "store ?st1 = store st" by (simp add: print_def)
  show ?case
  proof (cases "load_price_data rules (store ?st1) mid")
    case (Inl err)
    with Cons.prems have "st' = ?st1" by (simp add: m Let_def)
    with s1 show ?thesis by simp
  next
    case loaded: (Inr loaded)
    show ?thesis
    proof (cases loaded)
      case None
      with Cons.prems loaded
      have run: "main_loop fm rules ms (print NoPriceData ?st1) = (st', e)"
        by (simp add: m Let_def)
      from Cons.IH [OF run] show ?thesis by (simp add: print_def)
    next
      case (Some df)
      let ?df = "build_features fm df"
      obtain db2 r2 where u1: "upsert_technical_features rules (store ?st1) ?df = (db2, r2)"
        by (cases "upsert_technical_features rules (store ?st1) ?df")
      have k2: "technical_features (store st) k = Some v \<longrightarrow> technical_features db2 k = Some v"
        using upsert_technical_features_keeps [OF u1] s1 by simp
      have r2: "risk_events db2 = risk_events (store st)"
        using upsert_technical_features_other [OF u1] s1 by simp
      show ?thesis
      proof (cases r2)
        case (Inl err)
        with Cons.prems loaded Some u1 have "st' = ?st1\<lparr>store := db2\<rparr>"
          by (simp add: m Let_def)
        with k2 r2 show ?thesis by simp
      next
        case (Inr n_feat)
        obtain db3 r3 where u2: "upsert_risk_events rules db2 ?df = (db3, r3)"
          by (cases "upsert_risk_events rules db2 ?df")
        have t3: "technical_features db3 = technical_features db2"
          using upsert_risk_events_other [OF u2] by simp
        have k3: "risk_events (store st) k' = Some v' \<longrightarrow> risk_events db3 k' = Some v'"
          using upsert_risk_events_keeps [OF u2] r2 by simp
        show ?thesis
        proof (cases r3)
          case (Inl err)
          with Cons.prems loaded Some u1 u2 Inr have "st' = ?st1\<lparr>store := db3\<rparr>"
            by (simp add: m Let_def)
          with k2 k3 t3 show ?thesis by simp
        next
          case r3: (Inr n_risk)
          let ?st2 = "print (InsertedRisk n_risk) (print (InsertedFeatures n_feat)
                        (?st1\<lparr>store := db3, total_feat := total_feat ?st1 + n_feat,
                               total_risk := total_risk ?st1 + n_risk\<rparr>))"
          from Cons.prems loaded Some u1 u2 Inr r3
          have run: "main_loop fm rules ms ?st2 = (st', e)"
            by (simp add: m Let_def)
          have st2: "store ?st2 = db3" by (simp add: print_def)
          from Cons.IH [OF run] show ?thesis unfolding st2 using k2 k3 t3 by simp
        qed
      qed
    qed
  qed
qed

lemma silver_loop:
  "main_loop fm refuse_silver_risk [(2, ''Silver'')] (after_gold fm) =
     (two_metals_final fm, Some PersistenceFailure)"
proof -
  have p: "price_data two_metals_db = rising_series 1 @ rising_series 2"
    by (simp add: two_metals_db_def)
  show ?thesis
    unfolding after_gold_def two_metals_final_def
    by (simp add: Let_def print_def load_rising p refuse_silver_risk_reads
        rising_upsert_features silver_upsert_risk)
qed

lemma silver_features_step:
  "upsert_technical_features refuse_silver_risk two_metals_db (build_features fm (rising_series 2)) =
     (silver_features_db fm, Inr 1)"
proof -
  have "technical_features two_metals_db (2, 49) = None" by (simp add: two_metals_db_def)
  from rising_upsert_features [OF this, of fm] show ?thesis
    by (simp add: silver_features_db_def two_metals_db_def)
qed

lemma main_loop_error_origin:
  "main_loop fm rules ms st = (st', Some e) \<Longrightarrow>
   \<exists>m \<in> set ms. load_price_data rules (store st) (fst m) = Inl e \<or>
     (\<exists>series d d'. load_price_data rules (store st) (fst m) = Inr (Some series) \<and>
        (upsert_technical_features rules d (build_features fm series) = (d', Inl e) \<or>
         upsert_risk_events rules d (build_features fm series) = (d', Inl e)))"
proof (induction ms arbitrary: st)
  case Nil
  then show ?case by simp
next
  case (Cons m ms)
  obtain mid metal_name where m: "m = (mid, metal_name)" by (cases m)
  let ?st1 = "print (AssetHeader metal_name mid) st"
  let ?raised = "\<lambda>m db. load_price_data rules db (fst m) = Inl e \<or>
     (\<exists>series d d'. load_price_data rules db (fst m) = Inr (Some series) \<and>
        (upsert_technical_features rules d (build_features fm series) = (d', Inl e) \<or>
         upsert_risk_events rules d (build_features fm series) = (d', Inl e)))"
  have s1: "store ?st1 = store st" by (simp add: print_def)
  have later: "\<exists>m' \<in> set (m # ms). ?raised m' (store st)"
    if "\<exists>m' \<in> set ms. ?raised m' d" "price_data d = price_data (store st)" for d
  proof -
    from that(1) obtain m' where m': "m' \<in> set ms" "?raised m' d" by blast
    have "load_price_data rules d (fst m') = load_price_data rules (store st) (fst m')"
      by (rule load_price_data_cong) (rule that(2))
    with m'(2) have "?raised m' (store st)" by simp
    with m'(1) show ?thesis by auto
  qed
  show ?case
  proof (cases "load_price_data rules (store ?st1) mid")
    case (Inl err)
    with Cons.prems have "err = e" by (simp add: m Let_def)
    with Inl s1 have "?raised m (store st)" by (simp add: m)
    then show ?thesis by auto
  next
    case loaded: (Inr loaded)
    show ?thesis
    proof (cases loaded)
      case None
      with Cons.prems loaded
      have run: "main_loop fm rules ms (print NoPriceData ?st1) = (st', Some e)"
        by (simp add: m Let_def)
      have "store (print NoPriceData ?st1) = store st" by (simp add: print_def)
      with Cons.IH [OF run] later [of "store st"] show ?thesis by simp
    next
      case (Some df)
      let ?df = "build_features fm df"
      have ld: "load_price_data rules (store st) (fst m) = Inr (Some df)"
        using loaded Some s1 by (simp add: m)
      obtain db2 r2 where u1: "upsert_technical_features rules (store ?st1) ?df = (db2, r2)"
        by (cases "upsert_technical_features rules (store ?st1) ?df")
      have p2: "price_data db2 = price_data (store st)"
        using upsert_technical_features_other [OF u1] s1 by simp
      show ?thesis
      proof (cases r2)
        case (Inl err)
        with Cons.prems loaded Some u1 have "err = e" by (simp add: m Let_def)
        with u1 Inl ld have "?raised m (store st)" by blast
        then show ?thesis by auto
      next
        case (Inr n_feat)
        obtain db3 r3 where u2: "upsert_risk_events rules db2 ?df = (db3, r3)"
          by (cases "upsert_risk_events rules db2 ?df")
        have p3: "price_data db3 = price_data (store st)"
          using upsert_risk_events_other [OF u2] p2 by simp
        show ?thesis
        proof (cases r3)
          case (Inl err)
          with Cons.prems loaded Some u1 u2 Inr have "err = e" by (simp add: m Let_def)
          with u2 Inl ld have "?raised m (store st)" by blast
          then show ?thesis by auto
        next
          case r3: (Inr n_risk)
          let ?st2 = "print (InsertedRisk n_risk) (print (InsertedFeatures n_feat)
                        (?st1\<lparr>store := db3, total_feat := total_feat ?st1 + n_feat,
                               total_risk := total_risk ?st1 + n_risk\<rparr>))"
          from Cons.prems loaded Some u1 u2 Inr r3
          have run: "main_loop fm rules ms ?st2 = (st', Some e)"
            by (simp add: m Let_def)
          have st2: "store ?st2 = db3" by (simp add: print_def)
          from Cons.IH [OF run] have "\<exists>m' \<in> set ms. ?raised m' db3" unfolding st2 .
          from later [OF this p3] show ?thesis .
        qed
      qed
    qed
  qed
qed

lemma main_error_origin:
  assumes "main fm rules db0 = (st, Some e)"
  shows "\<exists>m \<in> set (metals db0). load_price_data rules db0 (fst m) = Inl e \<or>
     (\<exists>series d d'. load_price_data rules db0 (fst m) = Inr (Some series) \<and>
        (upsert_technical_features rules d (build_features fm series) = (d', Inl e) \<or>
         upsert_risk_events rules d (build_features fm series) = (d', Inl e)))"
proof -
  let ?start = "\<lparr>store = db0, total_feat = 0, total_risk = 0, printed = [Banner]\<rparr>"
  obtain st1 e1 where loop: "main_loop fm rules (sort_key fst (metals db0)) ?start = (st1, e1)"
    by (cases "main_loop fm rules (sort_key fst (metals db0)) ?start")
  with assms have "e1 = Some e" by (cases e1) (auto simp: main_def)
  with loop main_loop_error_origin [of fm rules "sort_key fst (metals db0)" ?start st1 e]
  show ?thesis by simp
qed

lemma real_driver_rules:
  "feat_accepts real_driver k v" "risk_accepts real_driver k' v'" "\<not> read_fails real_driver m"
  "\<not> empty_batch_ok real_driver"
  by (simp_all add: real_driver_def)

lemma real_upsert_features:
  assumes "technical_features d (m, 49) = None"
  shows "upsert_technical_features real_driver d (build_features fm (rising_series m)) =
           (d\<lparr>technical_features :=
                (technical_features d)((m, 49) \<mapsto> ind (build_features fm (rising_series m) ! 49))\<rparr>,
            Inr 1)"
  using assms
  by (simp add: upsert_technical_features_def rising_feature_batch begin_transaction_def
      execute_def insert_row_def real_driver_def)

lemma real_upsert_risk:
  "upsert_risk_events real_driver d (build_features fm (rising_series m)) =
     (d\<lparr>risk_events :=
          map_of (build_risk_events (build_features fm (rising_series m)) default_threshold)
            ++ risk_events d\<rparr>, Inr 49)"
proof -
  let ?B = "build_risk_events (build_features fm (rising_series m)) default_threshold"
  have ins: "insert_rows (risk_accepts real_driver) (risk_events d) ?B =
      Inr (map_of ?B ++ risk_events d)"
    by (rule insert_rows_accepting) (simp add: real_driver_def)
  have "length ?B = 49" by (rule rising_risk_length)
  then have "?B \<noteq> []" by auto
  with ins show ?thesis
    by (simp add: upsert_risk_events_def begin_transaction_def execute_def rising_risk_length)
qed

lemma load_silver_only:
  assumes "price_data d = rising_series 2" and "\<And>m. \<not> read_fails rules m"
  shows "load_price_data rules d 1 = Inr None"
    and "load_price_data rules d 2 = Inr (Some (rising_series 2))"
proof -
  have f: "filter (\<lambda>p. metal_id p = a) (rising_series b) = (if a = b then rising_series b else [])"
    for a b
    by (simp add: rising_series_def filter_map comp_def rising_point_def)
  have "map date (rising_series b) = [0..<50]" for b
    by (simp add: rising_series_def comp_def rising_point_def)
  then have "sorted (map date (rising_series b))" for b by simp
  then have s: "sort_key date (rising_series b) = rising_series b" for b
    by (rule sort_key_id_if_sorted)
  have ne: "rising_series b \<noteq> []" for b by (simp add: rising_series_def upt_rec)
  show "load_price_data rules d 1 = Inr None"
    by (simp add: load_price_data_def assms f)
  show "load_price_data rules d 2 = Inr (Some (rising_series 2))"
    by (simp add: load_price_data_def assms f s ne)
qed

lemma silver_only_run: "main fm real_driver silver_only_db = (silver_only_final fm, None)"
proof -
  have m: "sort_key fst (metals silver_only_db) = [(1, ''Gold''), (2, ''Silver'')]"
    by (simp add: silver_only_db_def)
  have p: "price_data silver_only_db = rising_series 2"
    and t: "technical_features silver_only_db = Map.empty"
    and r: "risk_events silver_only_db = Map.empty"
    by (simp_all add: silver_only_db_def)
  show ?thesis
    unfolding main_def m silver_only_final_def
    by (simp add: Let_def print_def load_silver_only p real_driver_rules real_upsert_features t
        real_upsert_risk r)
qed

lemma read_error_load:
  "price_data d = rising_series 1 @ rising_series 2 \<Longrightarrow>
   load_price_data read_error_gold d 1 = Inl LoadFailure"
  "price_data d = rising_series 1 @ rising_series 2 \<Longrightarrow>
   load_price_data read_error_gold d 2 = Inr (Some (rising_series 2))"
proof -
  assume p: "price_data d = rising_series 1 @ rising_series 2"
  show "load_price_data read_error_gold d 1 = Inl LoadFailure"
    by (simp add: load_price_data_def read_error_gold_def)
  have f: "filter (\<lambda>p. metal_id p = a) (rising_series b) = (if a = b then rising_series b else [])"
    for a b
    by (simp add: rising_series_def filter_map comp_def rising_point_def)
  have "map date (rising_series b) = [0..<50]" for b
    by (simp add: rising_series_def comp_def rising_point_def)
  then have "sorted (map date (rising_series b))" for b by simp
  then have s: "sort_key date (rising_series b) = rising_series b" for b
    by (rule sort_key_id_if_sorted)
  have ne: "rising_series b \<noteq> []" for b by (simp add: rising_series_def upt_rec)
  show "load_price_data read_error_gold d 2 = Inr (Some (rising_series 2))"
    by (simp add: load_price_data_def read_error_gold_def p f s ne)
qed

lemma read_error_run:
  "main fm read_error_gold two_metals_db =
     (\<lparr>store = two_metals_db, total_feat = 0, total_risk = 0,
       printed = [Banner, AssetHeader ''Gold'' 1]\<rparr>, Some LoadFailure)"
proof -
  have m: "sort_key fst (metals two_metals_db) = [(1, ''Gold''), (2, ''Silver'')]"
    by (simp add: two_metals_db_def)
  have p: "price_data two_metals_db = rising_series 1 @ rising_series 2"
    by (simp add: two_metals_db_def)
  show ?thesis
    unfolding main_def m
    by (simp add: Let_def print_def read_error_load p)
qed

lemma rising_risk_last_row:
  "((m, 49), \<lparr>is_risk_event = False, price_change_pct = Fin ((149 / 148 - 1) * 100),
              previous_close = Some 148, current_close = 149\<rparr>)
     \<in> set (build_risk_events (build_features fm (rising_series m)) default_threshold)"
proof -
  let ?g = "\<lambda>i. ((metal_id (rising_series m ! i), date (rising_series m ! i)),
        \<lparr>is_risk_event = (close (rising_series m ! i) / close (rising_series m ! (i - 1)) - 1
            \<le> default_threshold),
         price_change_pct =
           Fin ((close (rising_series m ! i) / close (rising_series m ! (i - 1)) - 1) * 100),
         previous_close = Some (close (rising_series m ! (i - 1))),
         current_close = close (rising_series m ! i)\<rparr>)"
  have pos: "\<forall>p \<in> set (rising_series m). 0 < close p"
    using set_rising by (fastforce simp: rising_point_def)
  have B: "build_risk_events (build_features fm (rising_series m)) default_threshold =
      map ?g [1..<50]"
    unfolding build_risk_events_positive [OF pos] length_rising ..
  have mem: "f 49 \<in> set (map f [1..<50])" for f :: "nat \<Rightarrow> key \<times> risk_event"
    by (auto intro!: image_eqI [of _ _ 49])
  have last: "?g 49 = ((m, 49), \<lparr>is_risk_event = False,
      price_change_pct = Fin ((149 / 148 - 1) * 100),
      previous_close = Some 148, current_close = 149\<rparr>)"
    by (simp add: nth_rising rising_point_def default_threshold_def)
  show ?thesis unfolding B last [symmetric] by (rule mem [of ?g])
qed

lemma rising_risk_last_lookup:
  "map_of (build_risk_events (build_features fm (rising_series m)) default_threshold) (m, 49) =
     Some \<lparr>is_risk_event = False, price_change_pct = Fin ((149 / 148 - 1) * 100),
           previous_close = Some 148, current_close = 149\<rparr>"
proof (rule map_of_is_SomeI)
  show "distinct (map fst (build_risk_events (build_features fm (rising_series m)) default_threshold))"
    unfolding rising_risk_keys by (simp add: distinct_map inj_on_def)
  show "((m, 49), \<lparr>is_risk_event = False, price_change_pct = Fin ((149 / 148 - 1) * 100),
              previous_close = Some 148, current_close = 149\<rparr>)
     \<in> set (build_risk_events (build_features fm (rising_series m)) default_threshold)"
    by (rule rising_risk_last_row)
qed

section \<open>The claims\<close>

subsection \<open>C1: the risk rows of a series\<close>

text \<open>
  C1. For every price series whose closes are all positive, the risk classifier emits
  exactly one row for each point from index 1 on and none for the first point; the row of
  point \<open>i\<close> has the previous close \<open>close[i-1]\<close>, the current close \<open>close[i]\<close>, the
  change in percent \<open>daily_return * 100\<close>, and its flag is set if and only if
  \<open>daily_return \<le> -0.02\<close>, where \<open>daily_return = close[i] / close[i-1] - 1\<close>.
\<close>

theorem risk_rows_of_positive_series:
  assumes "\<forall>p \<in> set df. 0 < close p"
  shows "build_risk_events (build_features fm df) (- 0.02) =
           map (\<lambda>i. ((metal_id (df ! i), date (df ! i)),
                     \<lparr>is_risk_event = (close (df ! i) / close (df ! (i - 1)) - 1 \<le> - 0.02),
                      price_change_pct = Fin ((close (df ! i) / close (df ! (i - 1)) - 1) * 100),
                      previous_close = Some (close (df ! (i - 1))),
                      current_close = close (df ! i)\<rparr>))
               [1..<length df] \<and>
         (\<forall>i. 0 < i \<and> i < length df \<longrightarrow>
            daily_return (ind (build_features fm df ! i)) =
              Fin (close (df ! i) / close (df ! (i - 1)) - 1))"
proof
  show "build_risk_events (build_features fm df) (- 0.02) =
           map (\<lambda>i. ((metal_id (df ! i), date (df ! i)),
                     \<lparr>is_risk_event = (close (df ! i) / close (df ! (i - 1)) - 1 \<le> - 0.02),
                      price_change_pct = Fin ((close (df ! i) / close (df ! (i - 1)) - 1) * 100),
                      previous_close = Some (close (df ! (i - 1))),
                      current_close = close (df ! i)\<rparr>))
               [1..<length df]"
    by (rule build_risk_events_positive [OF assms])
  show "\<forall>i. 0 < i \<and> i < length df \<longrightarrow>
            daily_return (ind (build_features fm df ! i)) =
              Fin (close (df ! i) / close (df ! (i - 1)) - 1)"
    by (simp add: daily_return_positive [OF assms])
qed

theorem risk_rows_of_positive_series_witness:
  "0 < close (flat_point 0 100) \<and> 0 < close (flat_point 1 97) \<and> 0 < close (flat_point 2 99) \<and>
   build_risk_events (build_features Pad spec_example) (- 0.02) =
     [((1, 1), \<lparr>is_risk_event = True, price_change_pct = Fin (- 3),
                previous_close = Some 100, current_close = 97\<rparr>),
      ((1, 2), \<lparr>is_risk_event = False, price_change_pct = Fin (200 / 97),
                previous_close = Some 97, current_close = 99\<rparr>)]"
proof -
  have pos: "\<forall>p \<in> set spec_example. 0 < close p"
    by (simp add: spec_example_def flat_point_def)
  have upt: "[1..<length spec_example] = [1, 2]"
    by (simp add: spec_example_def upt_rec)
  from risk_rows_of_positive_series [OF pos, of Pad] show ?thesis
    unfolding upt by (simp add: spec_example_def flat_point_def)
qed

subsection \<open>C2: only complete feature rows are written\<close>

text \<open>
  C2. The feature writer drops, before it inserts, every row in which one of the twenty
  indicator fields is absent: every row of the batch it sends has all fields present, and
  every row that \<open>technical_features\<close> holds after the writer and did not hold before
  is such a complete row of the frame. So no row with an absent field is ever written,
  by the writer or by a whole run of the driver over any price data, whether the run
  completes or ends in an exception.
\<close>

theorem only_complete_rows_written:
  "(\<forall>kv \<in> set (feature_batch df). no_absent (snd kv)) \<and>
   (upsert_technical_features rules db0 df = (db1, r) \<and>
    technical_features db1 k = Some v \<and> technical_features db0 k \<noteq> Some v \<longrightarrow>
      no_absent v \<and> (\<exists>row \<in> set df. row_key row = k \<and> ind row = v)) \<and>
   (main fm rules db0 = (st, e) \<and>
    technical_features (store st) k = Some v \<and> technical_features db0 k \<noteq> Some v \<longrightarrow>
      no_absent v)"
proof (intro conjI)
  show "\<forall>kv \<in> set (feature_batch df). no_absent (snd kv)"
    by (simp add: feature_batch_def)
  show "upsert_technical_features rules db0 df = (db1, r) \<and>
    technical_features db1 k = Some v \<and> technical_features db0 k \<noteq> Some v \<longrightarrow>
      no_absent v \<and> (\<exists>row \<in> set df. row_key row = k \<and> ind row = v)"
    using upsert_technical_features_origin [of rules db0 df db1 r k v] by blast
  show "main fm rules db0 = (st, e) \<and>
    technical_features (store st) k = Some v \<and> technical_features db0 k \<noteq> Some v \<longrightarrow>
      no_absent v"
    using main_features_origin [of fm rules db0 st e k v] by blast
qed

theorem only_complete_rows_written_witness:
  "upsert_technical_features accept_all empty_db example_frame =
     (empty_db\<lparr>technical_features := [(1, 1) \<mapsto> full_ind]\<rparr>, Inr 1) \<and>
   is_nan (rsi_14 (ind (example_frame ! 0))) \<and>
   technical_features (empty_db\<lparr>technical_features := [(1, 1) \<mapsto> full_ind]\<rparr>) (1, 0) = None \<and>
   technical_features (empty_db\<lparr>technical_features := [(1, 1) \<mapsto> full_ind]\<rparr>) (1, 1) = Some full_ind \<and>
   technical_features empty_db (1, 1) \<noteq> Some full_ind \<and>
   no_absent full_ind \<and>
   main Pad refuse_silver_risk two_metals_db = (two_metals_final Pad, Some PersistenceFailure) \<and>
   technical_features (store (two_metals_final Pad)) (2, 49) =
     Some (ind (build_features Pad (rising_series 2) ! 49)) \<and>
   technical_features two_metals_db (2, 49) \<noteq> Some (ind (build_features Pad (rising_series 2) ! 49)) \<and>
   no_absent (ind (build_features Pad (rising_series 2) ! 49))"
proof -
  let ?db1 = "empty_db\<lparr>technical_features := [(1, 1) \<mapsto> full_ind]\<rparr>"
  let ?V = "ind (build_features Pad (rising_series 2) ! 49)"
  have new: "technical_features ?db1 (1, 1) = Some full_ind \<and>
      technical_features empty_db (1, 1) \<noteq> Some full_ind"
    by (simp add: empty_db_def)
  with only_complete_rows_written [of example_frame accept_all empty_db ?db1 "Inr 1" "(1, 1)" full_ind]
    example_upsert_features
  have a: "no_absent full_ind" by blast
  have run: "technical_features (store (two_metals_final Pad)) (2, 49) = Some ?V \<and>
      technical_features two_metals_db (2, 49) \<noteq> Some ?V"
    by (simp add: two_metals_final_def two_metals_db_def)
  with only_complete_rows_written [of _ refuse_silver_risk two_metals_db _ _ "(2, 49)" ?V Pad
      "two_metals_final Pad" "Some PersistenceFailure"] two_metals_run [of Pad]
  have b: "no_absent ?V" by blast
  have c: "is_nan (rsi_14 (ind (example_frame ! 0)))" by (simp add: example_frame_def)
  have d: "technical_features ?db1 (1, 0) = None" by (simp add: empty_db_def)
  from a b c d new run example_upsert_features two_metals_run [of Pad] show ?thesis by blast
qed

subsection \<open>C3: the writers are idempotent\<close>

text \<open>
  C3. Inserting a row whose key \<open>(metal_id, date)\<close> the table already holds is a silent
  no-op: no error, the table as it was. When a writer has run over a frame and returned
  its count \<open>n\<close>, running it again over the same frame leaves the store unchanged, so it
  inserts no new row, and returns the same \<open>n\<close>: the count is the length of the batch
  attempted, not the number of rows inserted.
\<close>

theorem writers_idempotent:
  "(tbl k = Some old \<and> accepts k v \<longrightarrow> insert_row accepts tbl (k, v) = Inr tbl) \<and>
   (upsert_technical_features rules db0 df = (db1, Inr n) \<longrightarrow>
      upsert_technical_features rules db1 df = (db1, Inr n) \<and> n = length (feature_batch df)) \<and>
   (upsert_risk_events rules db0 df = (db2, Inr m) \<longrightarrow>
      upsert_risk_events rules db2 df = (db2, Inr m) \<and>
      m = length (build_risk_events df default_threshold))"
  using insert_row_conflict [of tbl k old accepts v]
    upsert_technical_features_again [of rules db0 df db1 n]
    upsert_risk_events_again [of rules db0 df db2 m]
  by auto

theorem writers_idempotent_witness:
  "upsert_technical_features accept_all empty_db example_frame =
     (empty_db\<lparr>technical_features := [(1, 1) \<mapsto> full_ind]\<rparr>, Inr 1) \<and>
   upsert_technical_features accept_all
     (empty_db\<lparr>technical_features := [(1, 1) \<mapsto> full_ind]\<rparr>) example_frame =
     (empty_db\<lparr>technical_features := [(1, 1) \<mapsto> full_ind]\<rparr>, Inr 1) \<and>
   upsert_risk_events accept_all empty_db example_frame =
     (empty_db\<lparr>risk_events := [(1, 1) \<mapsto> \<lparr>is_risk_event = False, price_change_pct = Fin 100,
                previous_close = Some 100, current_close = 200\<rparr>]\<rparr>, Inr 1) \<and>
   upsert_risk_events accept_all
     (empty_db\<lparr>risk_events := [(1, 1) \<mapsto> \<lparr>is_risk_event = False, price_change_pct = Fin 100,
                previous_close = Some 100, current_close = 200\<rparr>]\<rparr>) example_frame =
     (empty_db\<lparr>risk_events := [(1, 1) \<mapsto> \<lparr>is_risk_event = False, price_change_pct = Fin 100,
                previous_close = Some 100, current_close = 200\<rparr>]\<rparr>, Inr 1) \<and>
   insert_row (\<lambda>k v. True) [(1::int, 1::nat) \<mapsto> full_ind] ((1, 1), full_ind\<lparr>rsi_14 := Fin 70\<rparr>) =
     Inr [(1, 1) \<mapsto> full_ind]"
proof -
  have c: "[(1::int, 1::nat) \<mapsto> full_ind] (1, 1) = Some full_ind \<and> (\<lambda>k v. True) (1::int, 1::nat) (full_ind\<lparr>rsi_14 := Fin 70\<rparr>)"
    by simp
  from writers_idempotent [of "[(1, 1) \<mapsto> full_ind]" "(1, 1)" full_ind "\<lambda>k v. True"
      "full_ind\<lparr>rsi_14 := Fin 70\<rparr>" accept_all empty_db example_frame
      "empty_db\<lparr>technical_features := [(1, 1) \<mapsto> full_ind]\<rparr>" 1
      "empty_db\<lparr>risk_events := [(1, 1) \<mapsto> \<lparr>is_risk_event = False, price_change_pct = Fin 100,
                previous_close = Some 100, current_close = 200\<rparr>]\<rparr>" 1]
    example_upsert_features example_upsert_risk c
  show ?thesis by blast
qed

subsection \<open>C4: the exponential moving averages\<close>

text \<open>
  C4. For every series, \<open>ema_12\<close> and \<open>ema_26\<close> are defined at every index and satisfy
  the recurrence exactly: the value at index 0 is the first close, and each later value is
  \<open>\<alpha> * close[i] + (1 - \<alpha>) * ema[i-1]\<close> with \<open>\<alpha> = 2 / (k + 1)\<close>; the MACD signal line
  satisfies the same recurrence with \<open>k = 9\<close> over the MACD values.
\<close>

theorem ema_recurrence:
  assumes "i < length df"
  shows "(\<exists>e. ema_12 (ind (build_features fm df ! i)) = Fin e \<and>
            (i = 0 \<longrightarrow> e = close (df ! 0)) \<and>
            (0 < i \<longrightarrow> (\<exists>p. ema_12 (ind (build_features fm df ! (i - 1))) = Fin p \<and>
                 e = 2 / (12 + 1) * close (df ! i) + (1 - 2 / (12 + 1)) * p))) \<and>
         (\<exists>e. ema_26 (ind (build_features fm df ! i)) = Fin e \<and>
            (i = 0 \<longrightarrow> e = close (df ! 0)) \<and>
            (0 < i \<longrightarrow> (\<exists>p. ema_26 (ind (build_features fm df ! (i - 1))) = Fin p \<and>
                 e = 2 / (26 + 1) * close (df ! i) + (1 - 2 / (26 + 1)) * p))) \<and>
         (\<exists>s m. macd_signal (ind (build_features fm df ! i)) = Fin s \<and>
            macd (ind (build_features fm df ! i)) = Fin m \<and>
            (i = 0 \<longrightarrow> s = m) \<and>
            (0 < i \<longrightarrow> (\<exists>p. macd_signal (ind (build_features fm df ! (i - 1))) = Fin p \<and>
                 s = 2 / (9 + 1) * m + (1 - 2 / (9 + 1)) * p)))"
proof -
  have prev: "i - 1 < length df" using assms by simp
  show ?thesis
    unfolding build_features_ema_12 [OF assms] build_features_ema_12 [OF prev]
      build_features_ema_26 [OF assms] build_features_ema_26 [OF prev]
      build_features_macd [OF assms] build_features_macd_signal [OF assms]
      build_features_macd_signal [OF prev]
    by (intro conjI ewm_closes_recurrence [OF assms] signal_recurrence [OF assms])
qed

theorem ema_recurrence_witness:
  "(1::nat) < length spec_example \<and>
   ema_12 (ind (build_features Pad spec_example ! 0)) = Fin 100 \<and>
   ema_12 (ind (build_features Pad spec_example ! 1)) = Fin (2 / 13 * 97 + 11 / 13 * 100) \<and>
   ema_26 (ind (build_features Pad spec_example ! 0)) = Fin 100 \<and>
   ema_26 (ind (build_features Pad spec_example ! 1)) = Fin (2 / 27 * 97 + 25 / 27 * 100)"
proof -
  have l0: "0 < length spec_example" and l1: "1 < length spec_example"
    by (simp_all add: spec_example_def)
  have c0: "close (spec_example ! 0) = 100" and c1: "close (spec_example ! 1) = 97"
    by (simp_all add: spec_example_def flat_point_def)
  from ema_recurrence [OF l0, of Pad] c0
  have a0: "ema_12 (ind (build_features Pad spec_example ! 0)) = Fin 100"
    and b0: "ema_26 (ind (build_features Pad spec_example ! 0)) = Fin 100"
    by auto
  from ema_recurrence [OF l1, of Pad] c1 a0 b0
  have "ema_12 (ind (build_features Pad spec_example ! 1)) = Fin (2 / 13 * 97 + 11 / 13 * 100)"
    and "ema_26 (ind (build_features Pad spec_example ! 1)) = Fin (2 / 27 * 97 + 25 / 27 * 100)"
    by auto
  with a0 b0 l1 show ?thesis by simp
qed

subsection \<open>C5: division by zero\<close>

text \<open>
  C5. The claim asks that a feature whose formula divides by zero be absent, never
  infinite. \<open>high_low_ratio\<close> is guarded that way: at a low of 0 it is absent. But
  \<open>volume_change\<close> is the unguarded \<open>pct_change\<close>: for the two-day series whose
  volumes are 0 and 100, the volume change of the second day is plus infinity under
  either pandas fill rule, a value that is not absent and that \<open>dropna\<close> keeps.
\<close>

theorem zero_volume_gives_infinity:
  "volume_change (ind (build_features Pad zero_volume_prices ! 1)) = PInf \<and>
   volume_change (ind (build_features NoFill zero_volume_prices ! 1)) = PInf \<and>
   is_nan PInf = False \<and>
   high_low_ratio (ind (build_features Pad zero_volume_prices ! 0)) = NaN"
proof -
  have len: "1 < length zero_volume_prices" "0 < length zero_volume_prices"
    by (simp_all add: zero_volume_prices_def)
  have v: "map volume zero_volume_prices = map Some [0, 100]"
    by (simp add: zero_volume_prices_def)
  have vc: "volume_change (ind (build_features fm zero_volume_prices ! 1)) = PInf" for fm
    unfolding build_features_volume_change [OF len(1)] v
    by (subst pct_change_Some) (simp_all add: fl_sub_def)
  have hl: "high_low_ratio (ind (build_features Pad zero_volume_prices ! 0)) = NaN"
    unfolding build_features_high_low_ratio [OF len(2)]
    by (simp add: zero_volume_prices_def)
  from vc [of Pad] vc [of NoFill] hl show ?thesis by simp
qed

subsection \<open>C6: the range of the RSI\<close>

text \<open>
  C6. At every index where \<open>rsi_14\<close> is defined (not absent) it is a finite number between
  0 and 100; and where the 14-day average loss is 0 and the average gain is positive,
  \<open>rsi_14\<close> is exactly 100: the infinite ratio saturates, no error arises.
\<close>

theorem rsi_14_range_and_saturation:
  assumes "i < length df"
  shows "(\<not> is_nan (rsi_14 (ind (build_features fm df ! i))) \<longrightarrow>
           (\<exists>v. rsi_14 (ind (build_features fm df ! i)) = Fin v \<and> 0 \<le> v \<and> v \<le> 100)) \<and>
         (\<forall>g. rsi_loss (closes df) 14 ! i = Some 0 \<and> rsi_gain (closes df) 14 ! i = Some g \<and> 0 < g \<longrightarrow>
           rsi_14 (ind (build_features fm df ! i)) = Fin 100)"
proof -
  have i: "i < length (closes df)" using assms by (simp add: length_closes)
  have r: "rsi_14 (ind (build_features fm df ! i)) = calculate_rsi (closes df) 14 ! i"
    using assms by (rule build_features_rsi_14)
  from calculate_rsi_cases [OF i, of 14] have "\<not> is_nan (calculate_rsi (closes df) 14 ! i) \<longrightarrow>
      (\<exists>v. calculate_rsi (closes df) 14 ! i = Fin v \<and> 0 \<le> v \<and> v \<le> 100)"
    by auto
  moreover have "\<forall>g. rsi_loss (closes df) 14 ! i = Some 0 \<and> rsi_gain (closes df) 14 ! i = Some g \<and> 0 < g \<longrightarrow>
      calculate_rsi (closes df) 14 ! i = Fin 100"
    using calculate_rsi_saturates [OF i] by blast
  ultimately show ?thesis unfolding r by blast
qed

theorem rsi_14_range_and_saturation_witness:
  "13 < length rising_prices \<and>
   rsi_loss (closes rising_prices) 14 ! 13 = Some 0 \<and>
   rsi_gain (closes rising_prices) 14 ! 13 = Some (13 / 14) \<and> (0::real) < 13 / 14 \<and>
   \<not> is_nan (rsi_14 (ind (build_features Pad rising_prices ! 13))) \<and>
   rsi_14 (ind (build_features Pad rising_prices ! 13)) = Fin 100"
proof -
  have len: "13 < length rising_prices" by (simp add: rising_prices_def)
  have pos: "(0::real) < 13 / 14" by simp
  from rsi_14_range_and_saturation [OF len, of Pad] rising_gain rising_loss pos
  have "rsi_14 (ind (build_features Pad rising_prices ! 13)) = Fin 100" by blast
  with len rising_gain rising_loss show ?thesis by simp
qed

subsection \<open>C7: the transactions of one metal\<close>

text \<open>
  C7. The claim puts the feature batch and the risk batch of a metal in one transaction.
  The code opens one transaction in each writer. In the run below the store accepts every
  feature row and the risk rows of metal 1 only: the run ends with the exception raised
  by the risk batch of metal 2, whose feature row is committed while none of its risk rows
  is; the rows of metal 1, written before, stay committed.
\<close>

theorem single_transaction_counterexample:
  "snd (main Pad refuse_silver_risk two_metals_db) = Some PersistenceFailure \<and>
   technical_features two_metals_db (2, 49) = None \<and>
   technical_features (store (fst (main Pad refuse_silver_risk two_metals_db))) (2, 49) =
     Some (ind (build_features Pad (rising_series 2) ! 49)) \<and>
   (2, 49) \<in> fst ` set (build_risk_events (build_features Pad (rising_series 2)) default_threshold) \<and>
   risk_events (store (fst (main Pad refuse_silver_risk two_metals_db))) (2, 49) = None \<and>
   technical_features (store (fst (main Pad refuse_silver_risk two_metals_db))) (1, 49) \<noteq> None \<and>
   risk_events (store (fst (main Pad refuse_silver_risk two_metals_db))) (1, 49) \<noteq> None"
  unfolding two_metals_run
  using rising_risk_has_last [of 2 Pad default_threshold] gold_risk_row [of Pad default_threshold]
    gold_risk_no_silver [of Pad default_threshold]
  by (simp add: two_metals_final_def two_metals_db_def)

text \<open>
  C7, as the code has it. Each writer runs in a transaction of its own. The feature writer
  either commits its whole batch, every row of it whose key was free, or leaves
  \<open>technical_features\<close> as it was, and never touches \<open>risk_events\<close>; the risk writer
  does the same the other way round, after the feature batch is committed. No transaction
  spans two writers or two metals: a row that the store holds at some point of the
  driver's loop is still there when the loop ends, also when a later write raises.
\<close>

theorem writers_commit_separately:
  "(upsert_technical_features rules db0 df = (db1, r) \<longrightarrow>
      risk_events db1 = risk_events db0 \<and>
      (case r of
         Inl err \<Rightarrow> technical_features db1 = technical_features db0
       | Inr n \<Rightarrow> technical_features db1 = map_of (feature_batch df) ++ technical_features db0)) \<and>
   (upsert_risk_events rules db1 df = (db2, r') \<longrightarrow>
      technical_features db2 = technical_features db1 \<and>
      (case r' of
         Inl err \<Rightarrow> risk_events db2 = risk_events db1
       | Inr n \<Rightarrow> risk_events db2 =
           map_of (build_risk_events df default_threshold) ++ risk_events db1)) \<and>
   (main_loop fm rules ms st = (st', e) \<longrightarrow>
      (technical_features (store st) k = Some v \<longrightarrow> technical_features (store st') k = Some v) \<and>
      (risk_events (store st) k' = Some v' \<longrightarrow> risk_events (store st') k' = Some v'))"
proof -
  have a: "risk_events db1 = risk_events db0 \<and>
      (case r of
         Inl err \<Rightarrow> technical_features db1 = technical_features db0
       | Inr n \<Rightarrow> technical_features db1 = map_of (feature_batch df) ++ technical_features db0)"
    if u: "upsert_technical_features rules db0 df = (db1, r)"
  proof (cases r)
    case (Inl err)
    with u upsert_technical_features_other [OF u] show ?thesis
      by (simp add: upsert_technical_features_Inl)
  next
    case (Inr n)
    with u obtain tbl where
      ex: "execute (empty_batch_ok rules) (feat_accepts rules) (technical_features db0) (feature_batch df) = Inr tbl"
      and db1: "db1 = db0\<lparr>technical_features := tbl\<rparr>"
      by (auto simp: upsert_technical_features_Inr)
    from ex have "insert_rows (feat_accepts rules) (technical_features db0) (feature_batch df) = Inr tbl"
      by (auto simp: execute_def split: if_splits)
    from insert_rows_map_of [OF this] db1 Inr show ?thesis by simp
  qed
  have b: "technical_features db2 = technical_features db1 \<and>
      (case r' of
         Inl err \<Rightarrow> risk_events db2 = risk_events db1
       | Inr n \<Rightarrow> risk_events db2 =
           map_of (build_risk_events df default_threshold) ++ risk_events db1)"
    if u: "upsert_risk_events rules db1 df = (db2, r')"
  proof (cases r')
    case (Inl err)
    with u upsert_risk_events_other [OF u] show ?thesis
      by (simp add: upsert_risk_events_Inl)
  next
    case (Inr n)
    with u obtain tbl where
      ex: "execute (empty_batch_ok rules) (risk_accepts rules) (risk_events db1)
             (build_risk_events df default_threshold) = Inr tbl"
      and db2: "db2 = db1\<lparr>risk_events := tbl\<rparr>"
      by (auto simp: upsert_risk_events_Inr)
    from ex have "insert_rows (risk_accepts rules) (risk_events db1)
        (build_risk_events df default_threshold) = Inr tbl"
      by (auto simp: execute_def split: if_splits)
    from insert_rows_map_of [OF this] db2 Inr show ?thesis by simp
  qed
  from a b main_loop_keeps [of fm rules ms st st' e k v k' v'] show ?thesis by blast
qed

theorem writers_commit_separately_witness:
  "upsert_technical_features refuse_silver_risk two_metals_db (build_features Pad (rising_series 2)) =
     (silver_features_db Pad, Inr 1) \<and>
   technical_features (silver_features_db Pad) =
     map_of (feature_batch (build_features Pad (rising_series 2))) ++ technical_features two_metals_db \<and>
   risk_events (silver_features_db Pad) = risk_events two_metals_db \<and>
   upsert_risk_events refuse_silver_risk (silver_features_db Pad) (build_features Pad (rising_series 2)) =
     (silver_features_db Pad, Inl PersistenceFailure) \<and>
   main_loop Pad refuse_silver_risk [(2, ''Silver'')] (after_gold Pad) =
     (two_metals_final Pad, Some PersistenceFailure) \<and>
   technical_features (store (after_gold Pad)) (1, 49) =
     Some (ind (build_features Pad (rising_series 1) ! 49)) \<and>
   technical_features (store (two_metals_final Pad)) (1, 49) =
     Some (ind (build_features Pad (rising_series 1) ! 49))"
proof -
  let ?F = "build_features Pad (rising_series 2)"
  let ?V1 = "ind (build_features Pad (rising_series 1) ! 49)"
  have before: "technical_features (store (after_gold Pad)) (1, 49) = Some ?V1"
    by (simp add: after_gold_def)
  note inst = writers_commit_separately [of refuse_silver_risk two_metals_db ?F
      "silver_features_db Pad" "Inr 1" "silver_features_db Pad" "Inl PersistenceFailure"
      Pad "[(2, ''Silver'')]" "after_gold Pad" "two_metals_final Pad" "Some PersistenceFailure"
      "(1, 49)" ?V1]
  from inst silver_features_step [of Pad]
  have a: "technical_features (silver_features_db Pad) =
      map_of (feature_batch ?F) ++ technical_features two_metals_db"
    and b: "risk_events (silver_features_db Pad) = risk_events two_metals_db"
    by simp_all
  from inst silver_loop [of Pad] before
  have c: "technical_features (store (two_metals_final Pad)) (1, 49) = Some ?V1"
    by blast
  from a b c before silver_features_step [of Pad] silver_upsert_risk [of "silver_features_db Pad" Pad]
    silver_loop [of Pad]
  show ?thesis by blast
qed

subsection \<open>C8: a metal whose prices cannot be loaded\<close>

text \<open>
  C8. The claim lets any failure to load the prices of a metal skip that metal only, the
  run going on to the totals. The code skips a metal for which the loader returns nothing;
  an exception raised while loading is not caught. In the run below reading the prices of
  metal 1 raises: the run ends there with that exception, metal 2, whose prices load,
  is never reached, and no totals are printed.
\<close>

theorem load_exception_counterexample:
  "load_price_data read_error_gold two_metals_db 1 = Inl LoadFailure \<and>
   load_price_data read_error_gold two_metals_db 2 = Inr (Some (rising_series 2)) \<and>
   main Pad read_error_gold two_metals_db =
     (\<lparr>store = two_metals_db, total_feat = 0, total_risk = 0,
       printed = [Banner, AssetHeader ''Gold'' 1]\<rparr>, Some LoadFailure)"
  using read_error_load [of two_metals_db] read_error_run [of Pad]
  by (simp add: two_metals_db_def)

text \<open>
  C8, as the code has it. A metal with no price data at all, for which the loader returns
  nothing, is skipped with the warning, and the driver goes on with the next metal, in any
  state and whatever metals remain; a run over metals that all lack prices completes,
  prints one warning for each and the totals, and leaves the store as it was. An
  exception raised while a metal's prices are loaded ends the run at that metal. A run
  that completes ends by printing the totals, and a run ends early only with an exception
  raised by the loader or by a writer for one of the metals, never because a metal has no
  prices.
\<close>

theorem missing_asset_is_skipped:
  "(load_price_data rules (store st) mid = Inr None \<longrightarrow>
      main_loop fm rules ((mid, metal_name) # rest) st =
      main_loop fm rules rest (print NoPriceData (print (AssetHeader metal_name mid) st))) \<and>
   ((\<forall>m \<in> set (metals db0). load_price_data rules db0 (fst m) = Inr None) \<longrightarrow>
      (\<exists>st'. main fm rules db0 = (st', None) \<and> store st' = db0 \<and>
         printed st' = Banner #
           concat (map (\<lambda>m. [AssetHeader (snd m) (fst m), NoPriceData]) (sort_key fst (metals db0)))
           @ [Done, TotalFeatures 0, TotalRisk 0])) \<and>
   (load_price_data rules (store st) mid = Inl err \<longrightarrow>
      main_loop fm rules ((mid, metal_name) # rest) st =
      (print (AssetHeader metal_name mid) st, Some err)) \<and>
   (main fm rules db0 = (st1, None) \<longrightarrow>
      (\<exists>ls. printed st1 = ls @ [Done, TotalFeatures (total_feat st1), TotalRisk (total_risk st1)])) \<and>
   (main fm rules db0 = (st1, Some e) \<longrightarrow>
      (\<exists>m \<in> set (metals db0). load_price_data rules db0 (fst m) = Inl e \<or>
         (\<exists>series d d'. load_price_data rules db0 (fst m) = Inr (Some series) \<and>
            (upsert_technical_features rules d (build_features fm series) = (d', Inl e) \<or>
             upsert_risk_events rules d (build_features fm series) = (d', Inl e)))))"
proof -
  have a: "load_price_data rules (store st) mid = Inr None \<longrightarrow>
      main_loop fm rules ((mid, metal_name) # rest) st =
      main_loop fm rules rest (print NoPriceData (print (AssetHeader metal_name mid) st))"
    using main_loop_skip [of rules st mid fm metal_name rest] by blast
  have b: "(\<forall>m \<in> set (metals db0). load_price_data rules db0 (fst m) = Inr None) \<longrightarrow>
      (\<exists>st'. main fm rules db0 = (st', None) \<and> store st' = db0 \<and>
         printed st' = Banner #
           concat (map (\<lambda>m. [AssetHeader (snd m) (fst m), NoPriceData]) (sort_key fst (metals db0)))
           @ [Done, TotalFeatures 0, TotalRisk 0])"
  proof
    let ?start = "\<lparr>store = db0, total_feat = 0, total_risk = 0, printed = [Banner]\<rparr>"
    assume "\<forall>m \<in> set (metals db0). load_price_data rules db0 (fst m) = Inr None"
    then have "\<forall>m \<in> set (sort_key fst (metals db0)).
        load_price_data rules (store ?start) (fst m) = Inr None"
      by simp
    from main_loop_all_missing [OF this, of fm]
    show "\<exists>st'. main fm rules db0 = (st', None) \<and> store st' = db0 \<and>
         printed st' = Banner #
           concat (map (\<lambda>m. [AssetHeader (snd m) (fst m), NoPriceData]) (sort_key fst (metals db0)))
           @ [Done, TotalFeatures 0, TotalRisk 0]"
      by (simp add: main_def print_def)
  qed
  have c: "load_price_data rules (store st) mid = Inl err \<longrightarrow>
      main_loop fm rules ((mid, metal_name) # rest) st =
      (print (AssetHeader metal_name mid) st, Some err)"
    using main_loop_raise [of rules st mid err fm metal_name rest] by blast
  have d: "main fm rules db0 = (st1, None) \<longrightarrow>
      (\<exists>ls. printed st1 = ls @ [Done, TotalFeatures (total_feat st1), TotalRisk (total_risk st1)])"
    using main_prints_totals [of fm rules db0 st1] by blast
  have e: "main fm rules db0 = (st1, Some e) \<longrightarrow>
      (\<exists>m \<in> set (metals db0). load_price_data rules db0 (fst m) = Inl e \<or>
         (\<exists>series d d'. load_price_data rules db0 (fst m) = Inr (Some series) \<and>
            (upsert_technical_features rules d (build_features fm series) = (d', Inl e) \<or>
             upsert_risk_events rules d (build_features fm series) = (d', Inl e))))"
    using main_error_origin [of fm rules db0 st1 e] by blast
  from a b c d e show ?thesis by blast
qed

theorem missing_asset_is_skipped_witness:
  "load_price_data real_driver silver_only_db 1 = Inr None \<and>
   main_loop Pad real_driver [(1, ''Gold''), (2, ''Silver'')]
       \<lparr>store = silver_only_db, total_feat = 0, total_risk = 0, printed = [Banner]\<rparr> =
     main_loop Pad real_driver [(2, ''Silver'')]
       \<lparr>store = silver_only_db, total_feat = 0, total_risk = 0,
        printed = [Banner, AssetHeader ''Gold'' 1, NoPriceData]\<rparr> \<and>
   main Pad real_driver silver_only_db = (silver_only_final Pad, None) \<and>
   (\<exists>ls. printed (silver_only_final Pad) = ls @ [Done, TotalFeatures 1, TotalRisk 49]) \<and>
   load_price_data real_driver empty_db 1 = Inr None \<and>
   (\<exists>st'. main Pad real_driver empty_db = (st', None) \<and> store st' = empty_db \<and>
      printed st' = [Banner, AssetHeader ''Gold'' 1, NoPriceData, Done, TotalFeatures 0, TotalRisk 0]) \<and>
   load_price_data read_error_gold two_metals_db 1 = Inl LoadFailure \<and>
   main_loop Pad read_error_gold [(1, ''Gold''), (2, ''Silver'')]
       \<lparr>store = two_metals_db, total_feat = 0, total_risk = 0, printed = [Banner]\<rparr> =
     (\<lparr>store = two_metals_db, total_feat = 0, total_risk = 0,
       printed = [Banner, AssetHeader ''Gold'' 1]\<rparr>, Some LoadFailure) \<and>
   main Pad read_error_gold two_metals_db =
     (\<lparr>store = two_metals_db, total_feat = 0, total_risk = 0,
       printed = [Banner, AssetHeader ''Gold'' 1]\<rparr>, Some LoadFailure) \<and>
   (\<exists>m \<in> set (metals two_metals_db).
      load_price_data read_error_gold two_metals_db (fst m) = Inl LoadFailure \<or>
      (\<exists>series d d'. load_price_data read_error_gold two_metals_db (fst m) = Inr (Some series) \<and>
         (upsert_technical_features read_error_gold d (build_features Pad series) = (d', Inl LoadFailure) \<or>
          upsert_risk_events read_error_gold d (build_features Pad series) = (d', Inl LoadFailure))))"
proof -
  let ?s = "\<lparr>store = silver_only_db, total_feat = 0, total_risk = 0, printed = [Banner]\<rparr>"
  let ?t = "\<lparr>store = two_metals_db, total_feat = 0, total_risk = 0, printed = [Banner]\<rparr>"
  have l1: "load_price_data real_driver silver_only_db 1 = Inr None"
    by (rule load_silver_only) (simp_all add: silver_only_db_def real_driver_rules)
  then have l1': "load_price_data real_driver (store ?s) 1 = Inr None" by simp
  from missing_asset_is_skipped [of real_driver ?s 1 Pad "''Gold''" "[(2, ''Silver'')]"] l1'
  have a: "main_loop Pad real_driver [(1, ''Gold''), (2, ''Silver'')] ?s =
     main_loop Pad real_driver [(2, ''Silver'')]
       \<lparr>store = silver_only_db, total_feat = 0, total_risk = 0,
        printed = [Banner, AssetHeader ''Gold'' 1, NoPriceData]\<rparr>"
    by (simp add: print_def)
  from missing_asset_is_skipped [of real_driver _ _ Pad _ _ silver_only_db _ "silver_only_final Pad"]
    silver_only_run [of Pad]
  have b: "\<exists>ls. printed (silver_only_final Pad) = ls @ [Done, TotalFeatures 1, TotalRisk 49]"
    by (simp add: silver_only_final_def)
  have l2: "load_price_data real_driver empty_db 1 = Inr None"
    by (simp add: load_price_data_def empty_db_def real_driver_def)
  then have all: "\<forall>m \<in> set (metals empty_db). load_price_data real_driver empty_db (fst m) = Inr None"
    by (simp add: empty_db_def)
  have m: "sort_key fst (metals empty_db) = [(1, ''Gold'')]" by (simp add: empty_db_def)
  from missing_asset_is_skipped [of real_driver _ _ Pad _ _ empty_db] all
  have c: "\<exists>st'. main Pad real_driver empty_db = (st', None) \<and> store st' = empty_db \<and>
      printed st' = [Banner, AssetHeader ''Gold'' 1, NoPriceData, Done, TotalFeatures 0, TotalRisk 0]"
    unfolding m by simp
  have l3: "load_price_data read_error_gold two_metals_db 1 = Inl LoadFailure"
    by (rule read_error_load) (simp add: two_metals_db_def)
  then have l3': "load_price_data read_error_gold (store ?t) 1 = Inl LoadFailure" by simp
  from missing_asset_is_skipped [of read_error_gold ?t 1 Pad "''Gold''" "[(2, ''Silver'')]" _
      LoadFailure] l3'
  have d: "main_loop Pad read_error_gold [(1, ''Gold''), (2, ''Silver'')] ?t =
     (\<lparr>store = two_metals_db, total_feat = 0, total_risk = 0,
       printed = [Banner, AssetHeader ''Gold'' 1]\<rparr>, Some LoadFailure)"
    by (simp add: print_def)
  from missing_asset_is_skipped [of read_error_gold _ _ Pad _ _ two_metals_db _ _ LoadFailure]
    read_error_run [of Pad]
  have e: "\<exists>m \<in> set (metals two_metals_db).
      load_price_data read_error_gold two_metals_db (fst m) = Inl LoadFailure \<or>
      (\<exists>series d d'. load_price_data read_error_gold two_metals_db (fst m) = Inr (Some series) \<and>
         (upsert_technical_features read_error_gold d (build_features Pad series) = (d', Inl LoadFailure) \<or>
          upsert_risk_events read_error_gold d (build_features Pad series) = (d', Inl LoadFailure)))"
    by blast
  from l1 a silver_only_run [of Pad] b l2 c l3 d read_error_run [of Pad] e show ?thesis by blast
qed

subsection \<open>C9: a flat RSI window\<close>

text \<open>
  C9. Where the closes are constant over a whole active 14-day RSI window, the average
  gain and the average loss are both 0, \<open>rsi_14\<close> is absent (not-a-number, from 0/0) and
  not 100, and the feature row of that date is not in the batch that is persisted.
\<close>

theorem flat_window_rsi_absent:
  assumes "i < length df" and "13 \<le> i"
    and "\<forall>j. i - 13 \<le> j \<and> j \<le> i \<and> 0 < j \<longrightarrow> close (df ! j) = close (df ! (j - 1))"
  shows "rsi_gain (closes df) 14 ! i = Some 0 \<and> rsi_loss (closes df) 14 ! i = Some 0 \<and>
         rsi_14 (ind (build_features fm df ! i)) = NaN \<and>
         (row_key (build_features fm df ! i), ind (build_features fm df ! i))
            \<notin> set (feature_batch (build_features fm df)) \<and>
         (distinct (map (\<lambda>p. (metal_id p, date p)) df) \<longrightarrow>
            row_key (build_features fm df ! i) \<notin> fst ` set (feature_batch (build_features fm df)))"
proof -
  let ?F = "build_features fm df"
  have g: "rsi_gain (closes df) 14 ! i = Some 0" and l: "rsi_loss (closes df) 14 ! i = Some 0"
    using flat_window_gain_loss [OF assms(1,2)] assms(3) by blast+
  have ic: "i < length (closes df)" using assms(1) by (simp add: length_closes)
  have rsi: "rsi_14 (ind (?F ! i)) = NaN"
    unfolding build_features_rsi_14 [OF assms(1)] nth_calculate_rsi [OF ic] g l
    by (simp add: fl_sub_def)
  then have inc: "\<not> no_absent (ind (?F ! i))" by (simp add: no_absent_def)
  have notin: "(row_key (?F ! i), ind (?F ! i)) \<notin> set (feature_batch ?F)"
    using inc feature_batch_complete [of "row_key (?F ! i)" "ind (?F ! i)" ?F] by blast
  have keys: "map row_key ?F = map (\<lambda>p. (metal_id p, date p)) df"
    by (rule nth_equalityI)
      (simp_all add: build_features_length row_key_def build_features_point)
  have iF: "i < length ?F" using assms(1) by (simp add: build_features_length)
  have "distinct (map (\<lambda>p. (metal_id p, date p)) df) \<longrightarrow>
      row_key (?F ! i) \<notin> fst ` set (feature_batch ?F)"
    using feature_batch_keys [OF _ iF inc] unfolding keys by blast
  with g l rsi notin show ?thesis by blast
qed

theorem flat_window_rsi_absent_witness:
  "13 < length flat_prices \<and> map close flat_prices = replicate 14 100 \<and>
   distinct (map (\<lambda>p. (metal_id p, date p)) flat_prices) \<and>
   rsi_14 (ind (build_features Pad flat_prices ! 13)) = NaN \<and>
   row_key (build_features Pad flat_prices ! 13)
     \<notin> fst ` set (feature_batch (build_features Pad flat_prices))"
proof -
  have len: "13 < length flat_prices" by (simp add: flat_prices_def)
  have cl: "map close flat_prices = replicate 14 100"
    by (simp add: flat_prices_def flat_point_def comp_def map_replicate_const)
  have dist: "distinct (map (\<lambda>p. (metal_id p, date p)) flat_prices)"
    by (simp add: flat_prices_def flat_point_def distinct_map comp_def inj_on_def)
  have flat: "\<forall>j. 13 - 13 \<le> j \<and> j \<le> 13 \<and> 0 < j \<longrightarrow>
      close (flat_prices ! j) = close (flat_prices ! (j - 1))"
  proof (intro allI impI)
    fix j :: nat
    assume "13 - 13 \<le> j \<and> j \<le> 13 \<and> 0 < j"
    then have j: "j < length [0..<14::nat]" "j - 1 < length [0..<14::nat]" by auto
    show "close (flat_prices ! j) = close (flat_prices ! (j - 1))"
      unfolding flat_prices_def nth_map [OF j(1)] nth_map [OF j(2)]
      by (simp add: flat_point_def)
  qed
  from flat_window_rsi_absent [OF len _ flat, of Pad] dist len cl show ?thesis by simp
qed

subsection \<open>C10: the threshold of the pipeline\<close>

text \<open>
  C10. The pipeline always classifies with the threshold -0.02: \<open>upsert_risk_events\<close>
  calls \<open>build_risk_events\<close> with the default threshold, which is -0.02, so the rows it
  persists are exactly those of \<open>build_risk_events(df, -0.02)\<close>, inserted where the key
  was free, and its count is the length of that batch; and every risk row that a run of
  the driver adds to the store is a row of \<open>build_risk_events\<close> at threshold -0.02 over
  the features of one metal's series.
\<close>

theorem pipeline_threshold_fixed:
  "default_threshold = - 0.02 \<and>
   (upsert_risk_events rules db0 df = (db1, Inr n) \<longrightarrow>
      risk_events db1 = map_of (build_risk_events df (- 0.02)) ++ risk_events db0 \<and>
      n = length (build_risk_events df (- 0.02))) \<and>
   (main fm rules db0 = (st, e) \<and> risk_events (store st) k = Some v \<and>
    risk_events db0 k \<noteq> Some v \<longrightarrow>
      (\<exists>m series. m \<in> set (metals db0) \<and>
         load_price_data rules db0 (fst m) = Inr (Some series) \<and>
         (k, v) \<in> set (build_risk_events (build_features fm series) (- 0.02))))"
proof (intro conjI impI)
  show d: "default_threshold = - 0.02" by (simp add: default_threshold_def)
  {
    assume "upsert_risk_events rules db0 df = (db1, Inr n)"
    then obtain tbl where
      ex: "execute (empty_batch_ok rules) (risk_accepts rules) (risk_events db0)
             (build_risk_events df default_threshold) = Inr tbl"
      and db1: "db1 = db0\<lparr>risk_events := tbl\<rparr>"
      and n: "n = length (build_risk_events df default_threshold)"
      by (auto simp: upsert_risk_events_Inr)
    from ex have "insert_rows (risk_accepts rules) (risk_events db0)
        (build_risk_events df default_threshold) = Inr tbl"
      by (auto simp: execute_def split: if_splits)
    from insert_rows_map_of [OF this] db1
    show "risk_events db1 = map_of (build_risk_events df (- 0.02)) ++ risk_events db0"
      unfolding d by simp
    from n show "n = length (build_risk_events df (- 0.02))" unfolding d .
  }
  assume "main fm rules db0 = (st, e) \<and> risk_events (store st) k = Some v \<and>
    risk_events db0 k \<noteq> Some v"
  with main_risk_origin [of fm rules db0 st e k v]
  show "\<exists>m series. m \<in> set (metals db0) \<and>
         load_price_data rules db0 (fst m) = Inr (Some series) \<and>
         (k, v) \<in> set (build_risk_events (build_features fm series) (- 0.02))"
    unfolding d by blast
qed

theorem pipeline_threshold_fixed_witness:
  "main Pad accept_all small_db =
     (\<lparr>store = small_db\<lparr>risk_events := spec_example_risk\<rparr>, total_feat = 0, total_risk = 2,
       printed = [Banner, AssetHeader ''Gold'' 1, InsertedFeatures 0, InsertedRisk 2,
                  AssetHeader ''Silver'' 2, NoPriceData, Done, TotalFeatures 0, TotalRisk 2]\<rparr>,
      None) \<and>
   spec_example_risk (1, 1) = Some \<lparr>is_risk_event = True, price_change_pct = Fin (- 3),
                  previous_close = Some 100, current_close = 97\<rparr> \<and>
   risk_events small_db (1, 1) = None \<and>
   upsert_risk_events accept_all small_db (build_features Pad spec_example) =
     (small_db\<lparr>risk_events := spec_example_risk\<rparr>, Inr 2) \<and>
   (\<exists>m series. m \<in> set (metals small_db) \<and>
      load_price_data accept_all small_db (fst m) = Inr (Some series) \<and>
      ((1, 1), \<lparr>is_risk_event = True, price_change_pct = Fin (- 3),
                  previous_close = Some 100, current_close = 97\<rparr>)
        \<in> set (build_risk_events (build_features Pad series) (- 0.02))) \<and>
   spec_example_risk = map_of (build_risk_events (build_features Pad spec_example) (- 0.02))
      ++ risk_events small_db \<and>
   main Pad real_driver silver_only_db = (silver_only_final Pad, None) \<and>
   risk_events (store (silver_only_final Pad)) (2, 49) =
     Some \<lparr>is_risk_event = False, price_change_pct = Fin ((149 / 148 - 1) * 100),
           previous_close = Some 148, current_close = 149\<rparr> \<and>
   risk_events silver_only_db (2, 49) = None \<and>
   (\<exists>m series. m \<in> set (metals silver_only_db) \<and>
      load_price_data real_driver silver_only_db (fst m) = Inr (Some series) \<and>
      ((2, 49), \<lparr>is_risk_event = False, price_change_pct = Fin ((149 / 148 - 1) * 100),
                   previous_close = Some 148, current_close = 149\<rparr>)
        \<in> set (build_risk_events (build_features Pad series) (- 0.02)))"
proof -
  let ?st = "\<lparr>store = small_db\<lparr>risk_events := spec_example_risk\<rparr>, total_feat = 0, total_risk = 2,
       printed = [Banner, AssetHeader ''Gold'' 1, InsertedFeatures 0, InsertedRisk 2,
                  AssetHeader ''Silver'' 2, NoPriceData, Done, TotalFeatures 0, TotalRisk 2]\<rparr>"
  let ?v = "\<lparr>is_risk_event = True, price_change_pct = Fin (- 3),
                  previous_close = Some 100, current_close = 97\<rparr>"
  have r: "risk_events small_db = Map.empty" by (simp add: small_db_def)
  have new: "risk_events (store ?st) (1, 1) = Some ?v \<and> risk_events small_db (1, 1) \<noteq> Some ?v"
    by (simp add: spec_example_risk_def r)
  note inst = pipeline_threshold_fixed [of accept_all small_db "build_features Pad spec_example"
      "small_db\<lparr>risk_events := spec_example_risk\<rparr>" 2 Pad ?st None "(1, 1)" ?v]
  from inst small_main [of Pad] new
  have a: "\<exists>m series. m \<in> set (metals small_db) \<and>
      load_price_data accept_all small_db (fst m) = Inr (Some series) \<and>
      ((1, 1), ?v) \<in> set (build_risk_events (build_features Pad series) (- 0.02))"
    by blast
  from inst small_upsert_risk [OF r, of Pad]
  have b: "spec_example_risk = map_of (build_risk_events (build_features Pad spec_example) (- 0.02))
      ++ risk_events small_db"
    by (metis database.select_convs(4) database.update_convs(4) database.surjective)
  have c: "spec_example_risk (1, 1) = Some ?v" by (simp add: spec_example_risk_def)
  have d: "risk_events small_db (1, 1) = None" by (simp add: r)
  let ?w = "\<lparr>is_risk_event = False, price_change_pct = Fin ((149 / 148 - 1) * 100),
           previous_close = Some 148, current_close = 149\<rparr>"
  have f: "risk_events (store (silver_only_final Pad)) (2, 49) = Some ?w"
    by (simp add: silver_only_final_def rising_risk_last_lookup)
  have g: "risk_events silver_only_db (2, 49) = None" by (simp add: silver_only_db_def)
  then have g': "risk_events silver_only_db (2, 49) \<noteq> Some ?w" by simp
  from pipeline_threshold_fixed [of real_driver silver_only_db _ _ _ Pad "silver_only_final Pad"
      None "(2, 49)" ?w] silver_only_run [of Pad] f g'
  have h: "\<exists>m series. m \<in> set (metals silver_only_db) \<and>
      load_price_data real_driver silver_only_db (fst m) = Inr (Some series) \<and>
      ((2, 49), ?w) \<in> set (build_risk_events (build_features Pad series) (- 0.02))"
    by blast
  show ?thesis
    using small_main [of Pad] c d small_upsert_risk [OF r, of Pad] a b
      silver_only_run [of Pad] f g h
    by blast
qed

end
